theory Spec2Isabelle
  imports
    Main
    "HOL-Library.List_Lexorder"
    "HOL-Library.Char_ord"
    "HOL-Library.Sublist"
    "HOL-Library.Multiset"
begin

section \<open>Data model\<close>

text \<open>
  The program is \<^verbatim>\<open>photo_automation.py\<close>. A file path is a Python \<^verbatim>\<open>str\<close>; it is
  modelled as a \<open>string\<close> (the bytes of its UTF-8 encoding). Python compares strings
  code point by code point, a proper prefix being smaller; on UTF-8 bytes that is the
  lexicographic order of \<open>List_Lexorder\<close> over the byte order of \<open>Char_ord\<close>, so
  \<^verbatim>\<open>sorted(...)\<close> and \<^verbatim>\<open>list.sort()\<close> are \<open>sort\<close> (a stable insertion sort; equal
  strings are identical, so stability is unobservable).
\<close>

type_synonym path = string

subsection \<open>Path functions of \<^verbatim>\<open>os.path\<close> (POSIX flavour)\<close>

text \<open>
  \<^verbatim>\<open>os.path.join(a, b)\<close>: an absolute \<open>b\<close> replaces \<open>a\<close>; otherwise \<open>b\<close> is appended,
  after a separator unless \<open>a\<close> is empty or already ends with one.
\<close>

definition os_path_join :: "path \<Rightarrow> path \<Rightarrow> path" where
  "os_path_join a b =
     (if b \<noteq> [] \<and> hd b = CHR ''/'' then b
      else if a = [] \<or> last a = CHR ''/'' then a @ b
      else a @ ''/'' @ b)"

text \<open>\<^verbatim>\<open>os.path.basename(p)\<close>: what follows the last separator.\<close>

definition os_path_basename :: "path \<Rightarrow> path" where
  "os_path_basename p = rev (takeWhile (\<lambda>c. c \<noteq> CHR ''/'') (rev p))"

text \<open>
  \<^verbatim>\<open>os.path.split(p)\<close>: the pair (head, tail), the tail being the basename; trailing
  separators are stripped from the head unless it consists of separators only.
\<close>

definition os_path_split :: "path \<Rightarrow> path \<times> path" where
  "os_path_split p =
     (let tail = os_path_basename p;
          head = take (length p - length tail) p
      in (if head \<noteq> [] \<and> \<not> list_all (\<lambda>c. c = CHR ''/'') head
          then rev (dropWhile (\<lambda>c. c = CHR ''/'') (rev head)) else head,
          tail))"

text \<open>
  \<^verbatim>\<open>os.path.splitext(p)\<close>: splits at the last dot of the last component, unless that
  component has no dot or only dots before it.
\<close>

definition os_path_splitext :: "path \<Rightarrow> path \<times> string" where
  "os_path_splitext p =
     (let name = os_path_basename p;
          ext = rev (takeWhile (\<lambda>c. c \<noteq> CHR ''.'') (rev name));
          stem = take (length name - length ext - 1) name
      in if CHR ''.'' \<in> set name \<and> list_ex (\<lambda>c. c \<noteq> CHR ''.'') stem
         then (take (length p - length ext - 1) p, CHR ''.'' # ext)
         else (p, []))"

subsection \<open>Case conversion\<close>

text \<open>
  \<^verbatim>\<open>str.lower()\<close> and \<^verbatim>\<open>str.upper()\<close> on the ASCII letters; every other byte is left
  as it is.
\<close>

definition lower_char :: "char \<Rightarrow> char" where
  "lower_char c =
     (case map_of (zip ''ABCDEFGHIJKLMNOPQRSTUVWXYZ'' ''abcdefghijklmnopqrstuvwxyz'') c of
        Some d \<Rightarrow> d | None \<Rightarrow> c)"

definition upper_char :: "char \<Rightarrow> char" where
  "upper_char c =
     (case map_of (zip ''abcdefghijklmnopqrstuvwxyz'' ''ABCDEFGHIJKLMNOPQRSTUVWXYZ'') c of
        Some d \<Rightarrow> d | None \<Rightarrow> c)"

definition lower :: "string \<Rightarrow> string" where
  "lower s = map lower_char s"

definition upper :: "string \<Rightarrow> string" where
  "upper s = map upper_char s"

section \<open>File discovery: \<^verbatim>\<open>get_image_files\<close>\<close>

definition SUPPORTED_IMAGE_FORMATS :: "string list" where
  "SUPPORTED_IMAGE_FORMATS =
     [''.jpg'', ''.jpeg'', ''.tif'', ''.tiff'', ''.raw'', ''.cr2'', ''.nef'', ''.arw'']"

text \<open>
  The state of the file system, as the library calls of \<^verbatim>\<open>get_image_files\<close> see it:
  \<^item> \<open>os_walk d\<close>: the triples (root, directory names, file names) that \<^verbatim>\<open>os.walk(d)\<close>
    yields, in the order it yields them;
  \<^item> \<open>os_listdir d\<close>: the entry names of directory \<open>d\<close> in the order the system lists
    them (empty when \<open>d\<close> is not a readable directory);
  \<^item> \<open>glob_dirs p\<close>: the directories that \<^verbatim>\<open>glob\<close> finds for a directory pattern \<open>p\<close>
    that contains a wildcard.
\<close>

record filesystem =
  os_walk :: "path \<Rightarrow> (path \<times> string list \<times> string list) list"
  os_listdir :: "path \<Rightarrow> string list"
  glob_dirs :: "path \<Rightarrow> path list"

text \<open>\<^verbatim>\<open>glob.has_magic\<close>: the string contains one of the wildcard characters.\<close>

definition has_magic :: "string \<Rightarrow> bool" where
  "has_magic s = list_ex (\<lambda>c. c = CHR ''*'' \<or> c = CHR ''?'' \<or> c = CHR ''['') s"

definition ishidden :: "string \<Rightarrow> bool" where
  "ishidden name = (case name of [] \<Rightarrow> False | c # _ \<Rightarrow> c = CHR ''.'')"

text \<open>
  \<^verbatim>\<open>fnmatch\<close> of a name against a pattern, case-sensitive as on POSIX. The patterns
  that \<^verbatim>\<open>get_image_files\<close> builds are \<^verbatim>\<open>*\<close> followed by an extension; \<^verbatim>\<open>*\<close> and \<^verbatim>\<open>?\<close> are
  modelled, character classes \<^verbatim>\<open>[...]\<close> do not occur in them.
\<close>

fun fnmatch :: "string \<Rightarrow> string \<Rightarrow> bool" where
  "fnmatch [] [] = True"
| "fnmatch (c # cs) [] = False"
| "fnmatch [] (p # ps) = (p = CHR ''*'' \<and> fnmatch [] ps)"
| "fnmatch (c # cs) (p # ps) =
     (if p = CHR ''*'' then fnmatch (c # cs) ps \<or> fnmatch cs (p # ps)
      else if p = CHR ''?'' then fnmatch cs ps
      else c = p \<and> fnmatch cs ps)"

text \<open>
  \<^verbatim>\<open>glob\<close> of a wildcard pattern inside one directory: the listed names that match,
  names starting with a dot left out unless the pattern starts with one. An empty
  directory name stands for the current directory.
\<close>

definition glob1 :: "filesystem \<Rightarrow> path \<Rightarrow> string \<Rightarrow> string list" where
  "glob1 fs dirname pattern =
     (let names = os_listdir fs (if dirname = [] then ''.'' else dirname);
          names = (if ishidden pattern then names else filter (\<lambda>x. \<not> ishidden x) names)
      in filter (\<lambda>name. fnmatch name pattern) names)"

text \<open>
  \<^verbatim>\<open>glob.glob(pathname)\<close> for a pathname whose last component contains a wildcard (every
  pattern built below does). The pathname is split into directory part and last
  component. A directory part that itself contains a wildcard is expanded as a pattern;
  otherwise it is taken literally.
\<close>

definition glob_glob :: "filesystem \<Rightarrow> path \<Rightarrow> path list" where
  "glob_glob fs pathname =
     (let (dirname, basename) = os_path_split pathname in
      if dirname = [] then glob1 fs [] basename
      else
        let dirs = (if dirname \<noteq> pathname \<and> has_magic dirname
                    then glob_dirs fs dirname else [dirname])
        in concat (map (\<lambda>d. map (os_path_join d) (glob1 fs d basename)) dirs))"

text \<open>
  \<^verbatim>\<open>get_image_files(directory, recursive)\<close>, lines 104-127: the recursive branch walks
  the tree and keeps the file names whose lower-cased form ends with a supported
  extension; the other branch globs \<^verbatim>\<open>*ext\<close> and \<^verbatim>\<open>*EXT\<close> in the directory for every
  supported extension. The collected paths are returned sorted.
\<close>

definition get_image_files :: "filesystem \<Rightarrow> path \<Rightarrow> bool \<Rightarrow> path list" where
  "get_image_files fs directory recursive =
     sort
       (if recursive then
          concat (map (\<lambda>(root, dirs, files).
             map (os_path_join root)
               (filter (\<lambda>file. list_ex (\<lambda>ext. suffix ext (lower file)) SUPPORTED_IMAGE_FORMATS)
                  files))
             (os_walk fs directory))
        else
          concat (map (\<lambda>ext.
             glob_glob fs (os_path_join directory (''*'' @ ext)) @
             glob_glob fs (os_path_join directory (''*'' @ upper ext)))
             SUPPORTED_IMAGE_FORMATS))"

subsection \<open>Notions used to state the properties of file discovery\<close>

text \<open>
  The extension of a path: what follows the last dot of its last component (empty when
  that component has no dot). The supported extensions, written without the dot.
\<close>

definition file_extension :: "path \<Rightarrow> string" where
  "file_extension p =
     (let name = os_path_basename p in
      if CHR ''.'' \<in> set name then rev (takeWhile (\<lambda>c. c \<noteq> CHR ''.'') (rev name)) else [])"

definition supported_extensions :: "string list" where
  "supported_extensions = [''jpg'', ''jpeg'', ''tif'', ''tiff'', ''raw'', ''cr2'', ''nef'', ''arw'']"

text \<open>
  The directory part of the patterns built from \<open>directory\<close>: the directory without its
  trailing separators.
\<close>

definition glob_root :: "path \<Rightarrow> path" where
  "glob_root directory = fst (os_path_split (os_path_join directory ''*''))"

text \<open>The (directory, file name) pairs of a walk: the contents it enumerates.\<close>

definition walk_files :: "filesystem \<Rightarrow> path \<Rightarrow> (path \<times> string) list" where
  "walk_files fs directory =
     concat (map (\<lambda>(root, dirs, files). map (Pair root) files) (os_walk fs directory))"

section \<open>Bracket grouping: \<^verbatim>\<open>identify_bracketed_sets\<close>\<close>

text \<open>
  A Python list is an object that the callee can mutate. The store maps the address of a
  list object to its current contents; a function that receives a list receives its address.
\<close>

type_synonym loc = nat
type_synonym heap = "loc \<Rightarrow> path list"

text \<open>\<^verbatim>\<open>image_files.sort()\<close>: sorts the list object in place.\<close>

definition list_sort :: "heap \<Rightarrow> loc \<Rightarrow> heap" where
  "list_sort h a = h(a := sort (h a))"

text \<open>
  The \<^verbatim>\<open>for i, file_path in enumerate(image_files)\<close> loop of lines 150-160. The state is
  the pair \<open>(bracketed_sets, current_set)\<close>; \<open>n\<close> is \<^verbatim>\<open>len(image_files)\<close>, \<open>i\<close> the index
  of the element at the head of the remaining list. \<open>bracket_count\<close> is a Python \<^verbatim>\<open>int\<close>
  (the command line accepts any integer), so the comparison
  \<^verbatim>\<open>len(current_set) == bracket_count\<close> is made in \<open>int\<close>, and so is
  \<^verbatim>\<open>i == len(image_files) - 1\<close>.
\<close>

fun bracket_loop ::
  "int \<Rightarrow> nat \<Rightarrow> nat \<Rightarrow> path list \<Rightarrow> path list list \<times> path list \<Rightarrow> path list list \<times> path list"
where
  "bracket_loop bracket_count n i [] st = st"
| "bracket_loop bracket_count n i (file_path # rest) (bracketed_sets, current_set) =
     (let current_set = current_set @ [file_path] in
      if int (length current_set) = bracket_count \<or> int i = int n - 1 then
        bracket_loop bracket_count n (Suc i) rest
          (if 2 \<le> length current_set then bracketed_sets @ [current_set] else bracketed_sets, [])
      else bracket_loop bracket_count n (Suc i) rest (bracketed_sets, current_set))"

text \<open>
  \<^verbatim>\<open>identify_bracketed_sets(image_files, bracket_count)\<close>: the argument is the address of
  the caller's list. The result is the returned list of groups (fresh lists) together with
  the store after the call.
\<close>

definition identify_bracketed_sets :: "heap \<Rightarrow> loc \<Rightarrow> int \<Rightarrow> path list list \<times> heap" where
  "identify_bracketed_sets h image_files bracket_count =
     (let h' = list_sort h image_files;
          files = h' image_files;
          (bracketed_sets, current_set) =
             bracket_loop bracket_count (length files) 0 files ([], [])
      in (bracketed_sets, h'))"

text \<open>
  Reference description used in the proofs: cutting a list into consecutive pieces of
  \<open>b\<close> elements, the last piece holding what is left.
\<close>

fun chunks :: "nat \<Rightarrow> 'a list \<Rightarrow> 'a list list" where
  "chunks b xs = (if b = 0 \<or> xs = [] then [] else take b xs # chunks b (drop b xs))"

declare chunks.simps [simp del]

section \<open>Batch editing and HDR merging\<close>

text \<open>
  Exceptions that reach the caller: \<^verbatim>\<open>bracketed_set[0]\<close> on an empty list raises
  \<^verbatim>\<open>IndexError\<close>; \<^verbatim>\<open>os.makedirs\<close> and the temporary files written by
  \<^verbatim>\<open>run_photoshop_script\<close> before its \<^verbatim>\<open>try\<close> block can raise \<^verbatim>\<open>OSError\<close>.
\<close>

datatype exn = IndexError | OSError

text \<open>The parameter dictionaries handed to the two scripts.\<close>

datatype script_params =
    BatchEditParams (inputFiles: "path list") (outputDir: path)
      (applyExposure: bool) (applyLens: bool) (applyColor: bool)
      (saveFormat: string) (jpegQuality: int)
  | HdrMergeParams (inputFiles: "path list") (outputFile: path) (removeGhosts: bool) (bit32: bool)

text \<open>\<^verbatim>\<open>batch_params = params.copy(); batch_params['inputFiles'] = batch_files\<close>.\<close>

fun set_inputFiles :: "script_params \<Rightarrow> path list \<Rightarrow> script_params" where
  "set_inputFiles (BatchEditParams _ d e l c f q) xs = BatchEditParams xs d e l c f q"
| "set_inputFiles (HdrMergeParams _ out g b) xs = HdrMergeParams xs out g b"

text \<open>
  The world outside the program (the file system and the external editor) has a state
  of type \<open>'w\<close>. \<^verbatim>\<open>run_photoshop_script\<close> spawns the editor and reports success or
  failure; its body is process and temporary-file handling, so it is a transition of the
  world that yields either the reported Boolean or the exception raised, together with
  the world it leaves behind. \<^verbatim>\<open>os.path.exists\<close> reads the world, \<^verbatim>\<open>os.makedirs\<close> changes
  it and may raise, and the world may change while the program sleeps. Log output does
  not influence any result and is left out.
\<close>

record 'w system =
  run_photoshop_script :: "'w \<Rightarrow> path \<Rightarrow> path \<Rightarrow> script_params \<Rightarrow> (exn + bool) \<times> 'w"
  os_path_exists :: "'w \<Rightarrow> path \<Rightarrow> bool"
  os_makedirs :: "'w \<Rightarrow> path \<Rightarrow> exn option \<times> 'w"
  time_sleep :: "'w \<Rightarrow> nat \<Rightarrow> 'w"

text \<open>
  One invocation of the editor, as recorded for stating the properties: the parameters
  passed, what the invocation returned or raised, and the world right after it.
\<close>

type_synonym 'w call = "script_params \<times> (exn + bool) \<times> 'w"

definition batch_size :: nat where
  "batch_size = 10"

text \<open>
  The loop \<^verbatim>\<open>for i in range(0, total_count, batch_size)\<close> of lines 313-328. The state is
  \<open>(success_count, calls, w)\<close>: the counter, the invocations made so far, the world. The
  result is the counter when the loop finishes, or the exception that ended it, with the
  invocations made and the world at that moment.
\<close>

function batch_loop ::
  "'w system \<Rightarrow> path \<Rightarrow> path \<Rightarrow> script_params \<Rightarrow> path list \<Rightarrow> path \<Rightarrow> nat \<Rightarrow>
   nat \<times> 'w call list \<times> 'w \<Rightarrow> (exn + nat) \<times> 'w call list \<times> 'w"
where
  "batch_loop sys photoshop_path jsx_script_path params input_files output_dir i
     (success_count, calls, w) =
     (if i < length input_files then
        let batch_files = take batch_size (drop i input_files);
            batch_params = set_inputFiles params batch_files;
            (r, w1) = run_photoshop_script sys w photoshop_path jsx_script_path batch_params;
            calls = calls @ [(batch_params, r, w1)]
        in (case r of
              Inl e \<Rightarrow> (Inl e, calls, w1)
            | Inr ok \<Rightarrow>
                let success_count =
                      (if ok then
                         success_count +
                         length (filter (\<lambda>file. os_path_exists sys w1
                                    (os_path_join output_dir (os_path_basename file))) batch_files)
                       else success_count);
                    w2 = time_sleep sys w1 2
                in batch_loop sys photoshop_path jsx_script_path params input_files output_dir
                     (i + batch_size) (success_count, calls, w2))
      else (Inr success_count, calls, w))"
  by pat_completeness auto
termination
  by (relation "measure (\<lambda>(sys, pp, jsx, params, input_files, out, i, st). length input_files - i)")
     (auto simp: batch_size_def)

declare batch_loop.simps [simp del]

text \<open>
  \<^verbatim>\<open>batch_edit_photos\<close>, lines 273-330. \<open>script_dir\<close> is the directory of the program
  file. The result is the returned pair \<open>(success_count, total_count)\<close> or the exception
  raised, with the invocations made and the final world.
\<close>

definition batch_edit_photos ::
  "'w system \<Rightarrow> 'w \<Rightarrow> path \<Rightarrow> path \<Rightarrow> path list \<Rightarrow> path \<Rightarrow> bool \<Rightarrow> bool \<Rightarrow> bool \<Rightarrow>
   (exn + nat \<times> nat) \<times> 'w call list \<times> 'w"
where
  "batch_edit_photos sys w script_dir photoshop_path input_files output_dir
     apply_exposure apply_lens apply_color =
     (let (r0, w0) = (if \<not> os_path_exists sys w output_dir then os_makedirs sys w output_dir
                      else (None, w))
      in case r0 of
           Some e \<Rightarrow> (Inl e, [], w0)
         | None \<Rightarrow>
             let params = BatchEditParams input_files output_dir apply_exposure apply_lens
                            apply_color ''jpg'' 80;
                 jsx_script_path =
                   os_path_join (os_path_join script_dir ''photoshop_scripts'') ''batch_edit.jsx'';
                 total_count = length input_files;
                 (r, calls, w') =
                   batch_loop sys photoshop_path jsx_script_path params input_files output_dir 0
                     (0, [], w0)
             in ((case r of
                    Inl e \<Rightarrow> Inl e
                  | Inr success_count \<Rightarrow> Inr (success_count, total_count)),
                 calls, w'))"

text \<open>The loop \<^verbatim>\<open>for i, bracketed_set in enumerate(bracketed_sets)\<close> of lines 357-381.\<close>

fun merge_loop ::
  "'w system \<Rightarrow> path \<Rightarrow> path \<Rightarrow> path \<Rightarrow> bool \<Rightarrow> path list list \<Rightarrow>
   nat \<times> 'w call list \<times> 'w \<Rightarrow> (exn + nat) \<times> 'w call list \<times> 'w"
where
  "merge_loop sys photoshop_path jsx_script_path output_dir remove_ghosts []
     (success_count, calls, w) = (Inr success_count, calls, w)"
| "merge_loop sys photoshop_path jsx_script_path output_dir remove_ghosts (bracketed_set # rest)
     (success_count, calls, w) =
     (case bracketed_set of
        [] \<Rightarrow> (Inl IndexError, calls, w)
      | first # _ \<Rightarrow>
          let first_file = os_path_basename first;
              base_name = fst (os_path_splitext first_file);
              output_file = os_path_join output_dir (base_name @ ''_HDR.tif'');
              params = HdrMergeParams bracketed_set output_file remove_ghosts True;
              (r, w1) = run_photoshop_script sys w photoshop_path jsx_script_path params;
              calls = calls @ [(params, r, w1)]
          in (case r of
                Inl e \<Rightarrow> (Inl e, calls, w1)
              | Inr ok \<Rightarrow>
                  let success_count =
                        (if ok then
                           (if os_path_exists sys w1 output_file then success_count + 1
                            else success_count)
                         else success_count);
                      w2 = time_sleep sys w1 3
                  in merge_loop sys photoshop_path jsx_script_path output_dir remove_ghosts rest
                       (success_count, calls, w2)))"

text \<open>\<^verbatim>\<open>merge_hdr_photos\<close>, lines 333-383.\<close>

definition merge_hdr_photos ::
  "'w system \<Rightarrow> 'w \<Rightarrow> path \<Rightarrow> path \<Rightarrow> path list list \<Rightarrow> path \<Rightarrow> bool \<Rightarrow>
   (exn + nat \<times> nat) \<times> 'w call list \<times> 'w"
where
  "merge_hdr_photos sys w script_dir photoshop_path bracketed_sets output_dir remove_ghosts =
     (let (r0, w0) = (if \<not> os_path_exists sys w output_dir then os_makedirs sys w output_dir
                      else (None, w))
      in case r0 of
           Some e \<Rightarrow> (Inl e, [], w0)
         | None \<Rightarrow>
             let jsx_script_path =
                   os_path_join (os_path_join script_dir ''photoshop_scripts'') ''hdr_merge.jsx'';
                 total_count = length bracketed_sets;
                 (r, calls, w') =
                   merge_loop sys photoshop_path jsx_script_path output_dir remove_ghosts
                     bracketed_sets (0, [], w0)
             in ((case r of
                    Inl e \<Rightarrow> Inl e
                  | Inr success_count \<Rightarrow> Inr (success_count, total_count)),
                 calls, w'))"

subsection \<open>Notions used to state the properties of the two loops\<close>

text \<open>
  A list of recorded invocations is the run of a loop from world \<open>w\<close> to world \<open>w'\<close>
  when each entry holds what \<^verbatim>\<open>run_photoshop_script\<close> yields, for the entry's parameters,
  in the world reached so far; after an invocation that returns, the program sleeps
  \<open>d\<close> seconds before the next one; an invocation that raises is the last.
\<close>

fun invocations_from ::
  "'w system \<Rightarrow> path \<Rightarrow> path \<Rightarrow> nat \<Rightarrow> 'w \<Rightarrow> 'w call list \<Rightarrow> 'w \<Rightarrow> bool"
where
  "invocations_from sys photoshop_path jsx_script_path d w [] w' = (w' = w)"
| "invocations_from sys photoshop_path jsx_script_path d w ((params, r, w1) # cs) w' =
     (run_photoshop_script sys w photoshop_path jsx_script_path params = (r, w1) \<and>
      (case r of
         Inl e \<Rightarrow> cs = [] \<and> w' = w1
       | Inr ok \<Rightarrow>
           invocations_from sys photoshop_path jsx_script_path d (time_sleep sys w1 d) cs w'))"

text \<open>
  Over the invocations made: the files of the batches whose invocation returned success
  whose output file exists right after the invocation, and the units whose invocation
  returned success and whose output file exists right after it.
\<close>

definition files_counted :: "'w system \<Rightarrow> path \<Rightarrow> 'w call list \<Rightarrow> nat" where
  "files_counted sys output_dir calls =
     sum_list (map (\<lambda>(params, r, w1).
        if r = Inr True then length (filter (\<lambda>file. os_path_exists sys w1
                      (os_path_join output_dir (os_path_basename file))) (inputFiles params))
        else 0) calls)"

definition sets_counted :: "'w system \<Rightarrow> 'w call list \<Rightarrow> nat" where
  "sets_counted sys calls =
     length (filter (\<lambda>(params, r, w1). r = Inr True \<and> os_path_exists sys w1 (outputFile params))
       calls)"

text \<open>
  The expected output file of a bracketed set (lines 359-361): the base name of its first
  file, without extension, with \<^verbatim>\<open>_HDR.tif\<close> appended, in the output directory.
\<close>

definition hdr_output_file :: "path \<Rightarrow> path list \<Rightarrow> path" where
  "hdr_output_file output_dir bracketed_set =
     os_path_join output_dir
       (fst (os_path_splitext (os_path_basename (hd bracketed_set))) @ ''_HDR.tif'')"

section \<open>Properties of bracket grouping\<close>

subsection \<open>Consecutive pieces\<close>

lemma chunks_Nil [simp]: "chunks b [] = []"
  by (simp add: chunks.simps)

lemma chunks_short: "0 < b \<Longrightarrow> xs \<noteq> [] \<Longrightarrow> length xs \<le> b \<Longrightarrow> chunks b xs = [xs]"
  by (simp add: chunks.simps [of b xs])

lemma chunks_full: "0 < b \<Longrightarrow> length ys = b \<Longrightarrow> chunks b (ys @ zs) = ys # chunks b zs"
  by (simp add: chunks.simps [of b "ys @ zs"]) auto

lemma chunks_count_step:
  assumes "0 < b" and "xs \<noteq> []"
  shows "(length xs + b - 1) div b = Suc ((length (drop b xs) + b - 1) div b)"
proof (cases "length xs \<le> b")
  case True
  from assms have lo: "b * 1 \<le> length xs + b - 1" by (cases xs) auto
  have hi: "length xs + b - 1 < b * Suc 1" using True assms(1) by simp
  have "(length xs + b - 1) div b = 1"
    using lo hi by (rule div_nat_eqI)
  with True assms(1) show ?thesis by simp
next
  case False
  then have "length xs + b - 1 = (length xs - b + b - 1) + b" by simp
  then have "(length xs + b - 1) div b = Suc ((length xs - b + b - 1) div b)"
    using assms(1) by (simp only: div_add_self2)
  then show ?thesis by simp
qed

lemma chunks_closed:
  "0 < b \<Longrightarrow> chunks b xs = map (\<lambda>k. take b (drop (k * b) xs)) [0..<(length xs + b - 1) div b]"
proof (induction b xs rule: chunks.induct)
  case (1 b xs)
  show ?case
  proof (cases "xs = []")
    case True
    with 1 show ?thesis by simp
  next
    case False
    with 1 have IH: "chunks b (drop b xs) =
        map (\<lambda>k. take b (drop (k * b) (drop b xs))) [0..<(length (drop b xs) + b - 1) div b]"
      by simp
    have cnt: "(length xs + b - 1) div b = Suc ((length (drop b xs) + b - 1) div b)"
      using 1(2) False by (rule chunks_count_step)
    have "chunks b xs = take b xs # chunks b (drop b xs)"
      using False 1(2) by (simp add: chunks.simps [of b xs])
    also have "\<dots> = map (\<lambda>k. take b (drop (k * b) xs)) [0..<(length xs + b - 1) div b]"
      unfolding cnt IH map_upt_Suc by (simp add: add.commute)
    finally show ?thesis .
  qed
qed

lemma ceil_div_nat:
  assumes "0 < (b::nat)"
  shows "(n + b - 1) div b = n div b + (if n mod b = 0 then 0 else 1)"
proof -
  define q r where "q = n div b" and "r = n mod b"
  have n: "n = b * q + r" and r: "r < b"
    using assms by (simp_all add: q_def r_def)
  show ?thesis
  proof (cases "r = 0")
    case True
    have "b * q \<le> n + b - 1" using n assms by simp
    moreover have "n + b - 1 < b * Suc q" using n True assms by simp
    ultimately have "(n + b - 1) div b = q" by (rule div_nat_eqI)
    with True show ?thesis by (simp add: q_def r_def)
  next
    case False
    have "b * Suc q \<le> n + b - 1" using n False by simp
    moreover have "n + b - 1 < b * Suc (Suc q)" using n r by simp
    ultimately have "(n + b - 1) div b = Suc q" by (rule div_nat_eqI)
    with False show ?thesis by (simp add: q_def r_def)
  qed
qed

lemma full_chunk_length:
  assumes "k < length xs div b"
  shows "length (take b (drop (k * b) xs)) = b"
proof -
  have "Suc k * b \<le> (length xs div b) * b"
    using assms by (intro mult_le_mono1) simp
  also have "\<dots> \<le> length xs" by simp
  finally show ?thesis by simp
qed

lemma last_chunk:
  assumes "0 < b"
  shows "take b (drop (length xs div b * b) xs) = drop (length xs div b * b) xs"
    and "length (drop (length xs div b * b) xs) = length xs mod b"
proof -
  show len: "length (drop (length xs div b * b) xs) = length xs mod b"
    by (simp add: minus_div_mult_eq_mod)
  have "length xs mod b < b" using assms by simp
  with len show "take b (drop (length xs div b * b) xs) = drop (length xs div b * b) xs"
    by simp
qed

lemma filter_chunks_closed:
  assumes "2 \<le> b"
  shows "filter (\<lambda>g. 2 \<le> length g) (chunks b xs) =
         map (\<lambda>k. take b (drop (k * b) xs)) [0..<length xs div b] @
         (if 2 \<le> length xs mod b then [drop (length xs div b * b) xs] else [])"
proof -
  let ?f = "\<lambda>k. take b (drop (k * b) xs)"
  let ?q = "length xs div b"
  from assms have pos: "0 < b" by simp
  have "2 \<le> length g" if "g \<in> set (map ?f [0..<?q])" for g
  proof -
    from that obtain k where "k < ?q" and "g = ?f k" by auto
    then have "length g = b" by (simp only: full_chunk_length)
    with assms show ?thesis by simp
  qed
  then have full: "filter (\<lambda>g. 2 \<le> length g) (map ?f [0..<?q]) = map ?f [0..<?q]"
    by (intro filter_True) blast
  have split: "[0..<(length xs + b - 1) div b] =
               [0..<?q] @ (if length xs mod b = 0 then [] else [?q])"
    unfolding ceil_div_nat [OF pos] by simp
  have "filter (\<lambda>g. 2 \<le> length g) (chunks b xs) =
        filter (\<lambda>g. 2 \<le> length g) (map ?f [0..<?q]) @
        filter (\<lambda>g. 2 \<le> length g) (map ?f (if length xs mod b = 0 then [] else [?q]))"
    unfolding chunks_closed [OF pos] split by simp
  also have "filter (\<lambda>g. 2 \<le> length g) (map ?f (if length xs mod b = 0 then [] else [?q])) =
        (if 2 \<le> length xs mod b then [drop (?q * b) xs] else [])"
    using last_chunk [OF pos, of xs] by auto
  finally show ?thesis unfolding full .
qed

lemma chunks_member:
  assumes "0 < b" and "g \<in> set (chunks b xs)"
  obtains k where "g = take b (drop (k * b) xs)"
  using assms by (auto simp: chunks_closed)

lemma concat_full_chunks:
  "concat (map (\<lambda>k. take b (drop (k * b) xs)) [0..<q]) = take (q * b) xs"
proof (induction q)
  case 0
  show ?case by simp
next
  case (Suc q)
  have "take (q * b) xs @ take b (drop (q * b) xs) = take (q * b + b) xs"
    by (simp add: take_add)
  with Suc show ?case by (simp add: add.commute)
qed

subsection \<open>The loop computes the retained pieces\<close>

lemma bracket_loop_chunks:
  assumes "0 < b" and "length cur < b" and "i + length rest = n" and "cur = [] \<or> rest \<noteq> []"
  shows "fst (bracket_loop (int b) n i rest (sets, cur)) =
         sets @ filter (\<lambda>g. 2 \<le> length g) (chunks b (cur @ rest))"
  using assms
proof (induction rest arbitrary: i sets cur)
  case Nil
  then show ?case by simp
next
  case (Cons f rest)
  let ?cur = "cur @ [f]"
  show ?case
  proof (cases "length ?cur = b")
    case True
    have "chunks b (?cur @ rest) = ?cur # chunks b rest"
      using Cons.prems(1) True by (rule chunks_full)
    moreover have "fst (bracket_loop (int b) n (Suc i) rest
        (if 2 \<le> length ?cur then sets @ [?cur] else sets, [])) =
        (if 2 \<le> length ?cur then sets @ [?cur] else sets) @
        filter (\<lambda>g. 2 \<le> length g) (chunks b ([] @ rest))"
      using Cons.prems by (intro Cons.IH) auto
    ultimately show ?thesis
      using True by (cases "2 \<le> length ?cur") (simp_all add: Let_def)
  next
    case False
    show ?thesis
    proof (cases "rest = []")
      case True
      with False Cons.prems have last: "int i = int n - 1" by simp
      have "chunks b ?cur = [?cur]"
        using Cons.prems False by (intro chunks_short) auto
      with last True False show ?thesis by (simp add: Let_def)
    next
      case nonempty: False
      with Cons.prems have notlast: "int i \<noteq> int n - 1" by (cases rest) auto
      have "fst (bracket_loop (int b) n (Suc i) rest (sets, ?cur)) =
            sets @ filter (\<lambda>g. 2 \<le> length g) (chunks b (?cur @ rest))"
        using Cons.prems False nonempty by (intro Cons.IH) auto
      with notlast False show ?thesis by (simp add: Let_def)
    qed
  qed
qed

lemma bracket_loop_nonpos:
  assumes "bracket_count \<le> 0" and "i + length rest = n" and "cur = [] \<or> rest \<noteq> []"
  shows "fst (bracket_loop bracket_count n i rest (sets, cur)) =
         sets @ (if 2 \<le> length (cur @ rest) then [cur @ rest] else [])"
  using assms
proof (induction rest arbitrary: i sets cur)
  case Nil
  then show ?case by simp
next
  case (Cons f rest)
  have neq: "int (length (cur @ [f])) \<noteq> bracket_count"
    using Cons.prems(1) by simp
  show ?case
  proof (cases "rest = []")
    case True
    with Cons.prems have "int i = int n - 1" by simp
    with True neq show ?thesis by (simp add: Let_def)
  next
    case False
    with Cons.prems have notlast: "int i \<noteq> int n - 1" by (cases rest) auto
    have "fst (bracket_loop bracket_count n (Suc i) rest (sets, cur @ [f])) =
          sets @ (if 2 \<le> length ((cur @ [f]) @ rest) then [(cur @ [f]) @ rest] else [])"
      using Cons.prems False by (intro Cons.IH) auto
    with notlast neq show ?thesis by (simp add: Let_def)
  qed
qed

lemma identify_bracketed_sets_fst:
  "fst (identify_bracketed_sets h a B) =
   fst (bracket_loop B (length (h a)) 0 (sort (h a)) ([], []))"
  by (simp add: identify_bracketed_sets_def list_sort_def Let_def split: prod.splits)

lemma identify_bracketed_sets_snd:
  "snd (identify_bracketed_sets h a B) = h(a := sort (h a))"
  by (simp add: identify_bracketed_sets_def list_sort_def Let_def split: prod.splits)

lemma identify_bracketed_sets_pos:
  assumes "0 < b"
  shows "fst (identify_bracketed_sets h a (int b)) =
         filter (\<lambda>g. 2 \<le> length g) (chunks b (sort (h a)))"
proof -
  have "fst (bracket_loop (int b) (length (h a)) 0 (sort (h a)) ([], [])) =
        [] @ filter (\<lambda>g. 2 \<le> length g) (chunks b ([] @ sort (h a)))"
    using assms by (intro bracket_loop_chunks) auto
  then show ?thesis by (simp add: identify_bracketed_sets_fst)
qed

lemma identify_bracketed_sets_nonpos:
  assumes "B \<le> 0"
  shows "fst (identify_bracketed_sets h a B) =
         (if 2 \<le> length (h a) then [sort (h a)] else [])"
proof -
  have "fst (bracket_loop B (length (h a)) 0 (sort (h a)) ([], [])) =
        [] @ (if 2 \<le> length ([] @ sort (h a)) then [[] @ sort (h a)] else [])"
    using assms by (intro bracket_loop_nonpos) auto
  then show ?thesis by (simp add: identify_bracketed_sets_fst)
qed

lemma identify_bracketed_sets_closed:
  assumes "2 \<le> b"
  shows "fst (identify_bracketed_sets h a (int b)) =
         map (\<lambda>k. take b (drop (k * b) (sort (h a)))) [0..<length (h a) div b] @
         (if 2 \<le> length (h a) mod b then [drop (length (h a) div b * b) (sort (h a))] else [])"
proof -
  from assms have "0 < b" by simp
  then show ?thesis
    using filter_chunks_closed [OF assms, of "sort (h a)"]
    by (simp add: identify_bracketed_sets_pos)
qed

subsection \<open>Degenerate inputs\<close>

text \<open>
  Claim C6. \<^verbatim>\<open>identify_bracketed_sets\<close> returns the empty list when the input list is
  empty, when it holds fewer than two files (whatever the bracket count), and when
  \<open>bracket_count = 1\<close> (whatever the input): every group closed is then a singleton and is
  discarded.
\<close>

theorem C6_empty_results:
  "(h image_files = [] \<longrightarrow> fst (identify_bracketed_sets h image_files bracket_count) = []) \<and>
   (length (h image_files) < 2 \<longrightarrow> fst (identify_bracketed_sets h image_files bracket_count) = []) \<and>
   fst (identify_bracketed_sets h image_files 1) = []"
proof -
  have short: "fst (identify_bracketed_sets h image_files bracket_count) = []"
    if "length (h image_files) < 2"
  proof (cases "h image_files")
    case Nil
    then show ?thesis by (simp add: identify_bracketed_sets_fst)
  next
    case (Cons x xs)
    with that have "h image_files = [x]" by simp
    then show ?thesis by (simp add: identify_bracketed_sets_fst)
  qed
  have "length g \<le> 1" if "g \<in> set (chunks 1 (sort (h image_files)))" for g
    using that by (auto simp: chunks_closed)
  then have "filter (\<lambda>g. 2 \<le> length g) (chunks 1 (sort (h image_files))) = []"
    by (fastforce simp: filter_empty_conv)
  then have one: "fst (identify_bracketed_sets h image_files 1) = []"
    using identify_bracketed_sets_pos [of 1 h image_files] by simp
  from short one show ?thesis by simp
qed

theorem C6_empty_results_witness:
  "fst (identify_bracketed_sets ((\<lambda>_. [])(0 := [])) 0 3) = [] \<and>
   fst (identify_bracketed_sets ((\<lambda>_. [])(0 := [''IMG_001.jpg''])) 0 3) = [] \<and>
   fst (identify_bracketed_sets ((\<lambda>_. [])(0 := [''IMG_002.jpg'', ''IMG_001.jpg'', ''IMG_003.jpg''])) 0 1) = []"
  using C6_empty_results [of "(\<lambda>_. [])(0 := [])" 0 3]
    C6_empty_results [of "(\<lambda>_. [])(0 := [''IMG_001.jpg''])" 0 3]
    C6_empty_results [of "(\<lambda>_. [])(0 := [''IMG_002.jpg'', ''IMG_001.jpg'', ''IMG_003.jpg''])" 0 1]
  by simp

subsection \<open>Effect on the caller's list\<close>

text \<open>
  Claim C10. \<^verbatim>\<open>identify_bracketed_sets\<close> mutates its argument: after the call the
  caller's list object holds the sorted contents (a sorted permutation of what it held
  before), every other list object is unchanged, and the groups are returned separately.
\<close>

theorem C10_sorts_in_place:
  "snd (identify_bracketed_sets h image_files bracket_count) image_files = sort (h image_files) \<and>
   sorted (snd (identify_bracketed_sets h image_files bracket_count) image_files) \<and>
   mset (snd (identify_bracketed_sets h image_files bracket_count) image_files) = mset (h image_files) \<and>
   (\<forall>other. other \<noteq> image_files \<longrightarrow>
      snd (identify_bracketed_sets h image_files bracket_count) other = h other)"
proof -
  let ?h' = "snd (identify_bracketed_sets h image_files bracket_count)"
  have store: "?h' = h(image_files := sort (h image_files))"
    by (rule identify_bracketed_sets_snd)
  have arg: "?h' image_files = sort (h image_files)"
    unfolding store by simp
  have frame: "?h' other = h other" if "other \<noteq> image_files" for other
    unfolding store using that by simp
  from arg have "sorted (?h' image_files)" and "mset (?h' image_files) = mset (h image_files)"
    by simp_all
  with arg frame show ?thesis by blast
qed

theorem C10_sorts_in_place_witness:
  "snd (identify_bracketed_sets ((\<lambda>_. [])(0 := [''c.jpg'', ''a.jpg'', ''b.jpg''], 1 := [''z.jpg'', ''y.jpg''])) 0 3) 0
     = [''a.jpg'', ''b.jpg'', ''c.jpg''] \<and>
   snd (identify_bracketed_sets ((\<lambda>_. [])(0 := [''c.jpg'', ''a.jpg'', ''b.jpg''], 1 := [''z.jpg'', ''y.jpg''])) 0 3) 1
     = [''z.jpg'', ''y.jpg''] \<and>
   fst (identify_bracketed_sets ((\<lambda>_. [])(0 := [''c.jpg'', ''a.jpg'', ''b.jpg''], 1 := [''z.jpg'', ''y.jpg''])) 0 3)
     = [[''a.jpg'', ''b.jpg'', ''c.jpg'']]"
  using C10_sorts_in_place [of "(\<lambda>_. [])(0 := [''c.jpg'', ''a.jpg'', ''b.jpg''], 1 := [''z.jpg'', ''y.jpg''])" 0 3]
  by (simp add: identify_bracketed_sets_def list_sort_def Let_def)

subsection \<open>Shape and number of the groups\<close>

lemma identify_bracketed_sets_count:
  assumes "2 \<le> b"
  shows "length (fst (identify_bracketed_sets h a (int b))) =
         length (h a) div b + (if 2 \<le> length (h a) mod b then 1 else 0)"
  by (simp add: identify_bracketed_sets_closed [OF assms])

lemma identify_bracketed_sets_sizes:
  assumes "2 \<le> b"
  shows "map length (fst (identify_bracketed_sets h a (int b))) =
         replicate (length (h a) div b) b @
         (if 2 \<le> length (h a) mod b then [length (h a) mod b] else [])"
proof -
  let ?s = "sort (h a)"
  from assms have pos: "0 < b" by simp
  have "map (\<lambda>k. length (take b (drop (k * b) ?s))) [0..<length ?s div b] =
        map (\<lambda>k. b) [0..<length ?s div b]"
    by (rule map_cong) (simp_all only: full_chunk_length atLeastLessThan_iff set_upt)
  then have "map (\<lambda>k. length (take b (drop (k * b) ?s))) [0..<length (h a) div b] =
        replicate (length (h a) div b) b"
    by (simp add: map_replicate_const)
  moreover have "length (drop (length (h a) div b * b) ?s) = length (h a) mod b"
    using last_chunk(2) [OF pos, of ?s] by simp
  ultimately show ?thesis
    by (simp add: identify_bracketed_sets_closed [OF assms] o_def del: length_take length_drop)
qed

text \<open>
  Claim C1. For \<open>bracket_count \<ge> 2\<close> the result is the name-sorted input cut into
  consecutive groups of \<open>bracket_count\<close> files: the \<open>n div b\<close> full groups, followed by
  the remainder of \<open>n mod b\<close> files exactly when that remainder has at least two files (a
  remainder of one file is dropped). Seven files with \<open>bracket_count = 3\<close> give two groups,
  eight files give three.
\<close>

theorem C1_consecutive_groups:
  assumes "2 \<le> bracket_count"
  shows
    "(let s = sort (h image_files); n = length s; b = nat bracket_count;
          r = fst (identify_bracketed_sets h image_files bracket_count)
      in r = map (\<lambda>k. take b (drop (k * b) s)) [0..<n div b] @
             (if 2 \<le> n mod b then [drop (n div b * b) s] else []) \<and>
         map length r = replicate (n div b) b @ (if 2 \<le> n mod b then [n mod b] else [])) \<and>
     (length (h image_files) = 7 \<longrightarrow>
        length (fst (identify_bracketed_sets h image_files 3)) = 2) \<and>
     (length (h image_files) = 8 \<longrightarrow>
        length (fst (identify_bracketed_sets h image_files 3)) = 3)"
proof -
  define b where "b = nat bracket_count"
  with assms have b: "2 \<le> b" and B: "bracket_count = int b" by simp_all
  have three: "(2::nat) \<le> 3" by simp
  have "length (fst (identify_bracketed_sets h image_files 3)) = 2"
    if "length (h image_files) = 7"
    using that identify_bracketed_sets_count [OF three, of h image_files] by simp
  moreover have "length (fst (identify_bracketed_sets h image_files 3)) = 3"
    if "length (h image_files) = 8"
    using that identify_bracketed_sets_count [OF three, of h image_files] by simp
  ultimately show ?thesis
    using identify_bracketed_sets_closed [OF b, of h image_files]
      identify_bracketed_sets_sizes [OF b, of h image_files]
    by (simp add: Let_def B)
qed

theorem C1_consecutive_groups_witness:
  "fst (identify_bracketed_sets ((\<lambda>_. [])(0 :=
      [''IMG_3.jpg'', ''IMG_1.jpg'', ''IMG_2.jpg'', ''IMG_7.jpg'', ''IMG_5.jpg'', ''IMG_6.jpg'',
       ''IMG_4.jpg''])) 0 3) =
     [[''IMG_1.jpg'', ''IMG_2.jpg'', ''IMG_3.jpg''], [''IMG_4.jpg'', ''IMG_5.jpg'', ''IMG_6.jpg'']] \<and>
   length (fst (identify_bracketed_sets ((\<lambda>_. [])(0 :=
      [''IMG_3.jpg'', ''IMG_1.jpg'', ''IMG_2.jpg'', ''IMG_7.jpg'', ''IMG_5.jpg'', ''IMG_6.jpg'',
       ''IMG_4.jpg'', ''IMG_8.jpg''])) 0 3)) = 3"
proof -
  have h: "(2::int) \<le> 3" by simp
  show ?thesis
    using C1_consecutive_groups [OF h, of "(\<lambda>_. [])(0 :=
      [''IMG_3.jpg'', ''IMG_1.jpg'', ''IMG_2.jpg'', ''IMG_7.jpg'', ''IMG_5.jpg'', ''IMG_6.jpg'',
       ''IMG_4.jpg''])" 0]
      C1_consecutive_groups [OF h, of "(\<lambda>_. [])(0 :=
      [''IMG_3.jpg'', ''IMG_1.jpg'', ''IMG_2.jpg'', ''IMG_7.jpg'', ''IMG_5.jpg'', ''IMG_6.jpg'',
       ''IMG_4.jpg'', ''IMG_8.jpg''])" 0]
    by (simp add: Let_def upt_rec)
qed

text \<open>
  Claim C2 states that the number of groups is \<open>\<lfloor>N / B\<rfloor>\<close> whenever \<open>N mod B\<close> is \<open>0\<close> or
  lies in \<open>[2, B - 1]\<close>. Eight files with \<open>B = 3\<close> have \<open>N mod B = 2\<close> and
  \<open>\<lfloor>N / B\<rfloor> = 2\<close>, but three groups are returned: the remainder group is kept and
  counts.
\<close>

theorem C2_counterexample:
  "(2::int) \<le> int (length [''IMG_1.jpg'', ''IMG_2.jpg'', ''IMG_3.jpg'', ''IMG_4.jpg'',
       ''IMG_5.jpg'', ''IMG_6.jpg'', ''IMG_7.jpg'', ''IMG_8.jpg'']) mod 3 \<and>
   int (length [''IMG_1.jpg'', ''IMG_2.jpg'', ''IMG_3.jpg'', ''IMG_4.jpg'',
       ''IMG_5.jpg'', ''IMG_6.jpg'', ''IMG_7.jpg'', ''IMG_8.jpg'']) mod 3 \<le> 3 - 1 \<and>
   int (length (fst (identify_bracketed_sets ((\<lambda>_. [])(0 :=
      [''IMG_1.jpg'', ''IMG_2.jpg'', ''IMG_3.jpg'', ''IMG_4.jpg'',
       ''IMG_5.jpg'', ''IMG_6.jpg'', ''IMG_7.jpg'', ''IMG_8.jpg''])) 0 3))) \<noteq>
   int (length [''IMG_1.jpg'', ''IMG_2.jpg'', ''IMG_3.jpg'', ''IMG_4.jpg'',
       ''IMG_5.jpg'', ''IMG_6.jpg'', ''IMG_7.jpg'', ''IMG_8.jpg'']) div 3"
  by (simp add: identify_bracketed_sets_def list_sort_def Let_def)

text \<open>
  Claim C2, amended. For \<open>bracket_count \<ge> 2\<close> the number of groups is \<open>\<lfloor>N / B\<rfloor>\<close> when
  \<open>N mod B\<close> is \<open>0\<close> or \<open>1\<close>, and \<open>\<lfloor>N / B\<rfloor> + 1\<close> when \<open>N mod B\<close> lies in \<open>[2, B - 1]\<close>.
\<close>

theorem C2_group_count:
  assumes "2 \<le> bracket_count"
  shows "int (length (fst (identify_bracketed_sets h image_files bracket_count))) =
         int (length (h image_files)) div bracket_count +
         (if 2 \<le> int (length (h image_files)) mod bracket_count then 1 else 0)"
proof -
  define b where "b = nat bracket_count"
  with assms have b: "2 \<le> b" and B: "bracket_count = int b" by simp_all
  have "(2 \<le> int (length (h image_files)) mod int b) = (2 \<le> length (h image_files) mod b)"
    by (simp flip: zmod_int)
  then show ?thesis
    unfolding B by (simp add: identify_bracketed_sets_count [OF b] zdiv_int)
qed

theorem C2_group_count_witness:
  "int (length (fst (identify_bracketed_sets ((\<lambda>_. [])(0 :=
      [''IMG_1.jpg'', ''IMG_2.jpg'', ''IMG_3.jpg'', ''IMG_4.jpg'',
       ''IMG_5.jpg'', ''IMG_6.jpg'', ''IMG_7.jpg'', ''IMG_8.jpg''])) 0 3))) = 3 \<and>
   int (length (fst (identify_bracketed_sets ((\<lambda>_. [])(0 :=
      [''IMG_1.jpg'', ''IMG_2.jpg'', ''IMG_3.jpg'', ''IMG_4.jpg'',
       ''IMG_5.jpg'', ''IMG_6.jpg'', ''IMG_7.jpg''])) 0 3))) = 2"
proof -
  have h: "(2::int) \<le> 3" by simp
  show ?thesis
    using C2_group_count [OF h, of "(\<lambda>_. [])(0 :=
      [''IMG_1.jpg'', ''IMG_2.jpg'', ''IMG_3.jpg'', ''IMG_4.jpg'',
       ''IMG_5.jpg'', ''IMG_6.jpg'', ''IMG_7.jpg'', ''IMG_8.jpg''])" 0]
      C2_group_count [OF h, of "(\<lambda>_. [])(0 :=
      [''IMG_1.jpg'', ''IMG_2.jpg'', ''IMG_3.jpg'', ''IMG_4.jpg'',
       ''IMG_5.jpg'', ''IMG_6.jpg'', ''IMG_7.jpg''])" 0]
    by simp
qed

subsection \<open>Bounds on a group\<close>

lemma retained_group_bounds:
  assumes "0 < b" and "g \<in> set (fst (identify_bracketed_sets h a (int b)))"
  shows "2 \<le> length g" and "length g \<le> b" and "sorted g"
proof -
  from assms have g: "g \<in> set (chunks b (sort (h a)))" and two: "2 \<le> length g"
    by (simp_all add: identify_bracketed_sets_pos)
  from assms(1) g obtain k where k: "g = take b (drop (k * b) (sort (h a)))"
    by (rule chunks_member)
  show "2 \<le> length g" by (rule two)
  show "length g \<le> b" unfolding k by simp
  have "sorted (sort (h a))" by simp
  then show "sorted g" unfolding k by (intro sorted_wrt_take sorted_wrt_drop)
qed

text \<open>
  Claim C7 bounds the size of every group by \<open>bracket_count\<close> for every bracket count.
  With \<open>bracket_count = 0\<close> (or any negative value) the size test never succeeds, so all
  files end up in one group, closed at the last file: two files give one group of two.
\<close>

theorem C7_counterexample:
  "fst (identify_bracketed_sets ((\<lambda>_. [])(0 := [''IMG_001.jpg'', ''IMG_002.jpg''])) 0 0) =
     [[''IMG_001.jpg'', ''IMG_002.jpg'']] \<and>
   \<not> int (length [''IMG_001.jpg'', ''IMG_002.jpg'']) \<le> 0"
  by (simp add: identify_bracketed_sets_def list_sort_def Let_def)

text \<open>
  Claim C7, amended. For every input and every \<open>bracket_count\<close>, every returned group has
  at least two files and its files are in sort order; for \<open>bracket_count \<ge> 1\<close> every
  returned group has at most \<open>bracket_count\<close> files.
\<close>

theorem C7_group_bounds:
  "\<forall>g \<in> set (fst (identify_bracketed_sets h image_files bracket_count)).
     2 \<le> length g \<and> sorted g \<and> (1 \<le> bracket_count \<longrightarrow> int (length g) \<le> bracket_count)"
proof
  fix g
  assume g: "g \<in> set (fst (identify_bracketed_sets h image_files bracket_count))"
  show "2 \<le> length g \<and> sorted g \<and> (1 \<le> bracket_count \<longrightarrow> int (length g) \<le> bracket_count)"
  proof (cases "1 \<le> bracket_count")
    case True
    define b where "b = nat bracket_count"
    with True have b: "0 < b" and B: "bracket_count = int b" by simp_all
    from g have "g \<in> set (fst (identify_bracketed_sets h image_files (int b)))"
      by (simp only: B)
    from retained_group_bounds [OF b this] show ?thesis
      by (simp add: B)
  next
    case False
    then have "bracket_count \<le> 0" by simp
    from g have "g = sort (h image_files) \<and> 2 \<le> length (h image_files)"
      unfolding identify_bracketed_sets_nonpos [OF \<open>bracket_count \<le> 0\<close>]
      by (simp split: if_splits)
    with False show ?thesis by simp
  qed
qed

theorem C7_group_bounds_witness:
  "fst (identify_bracketed_sets ((\<lambda>_. [])(0 :=
      [''IMG_3.jpg'', ''IMG_1.jpg'', ''IMG_2.jpg'', ''IMG_5.jpg'', ''IMG_4.jpg''])) 0 3) =
     [[''IMG_1.jpg'', ''IMG_2.jpg'', ''IMG_3.jpg''], [''IMG_4.jpg'', ''IMG_5.jpg'']] \<and>
   list_all (\<lambda>g. 2 \<le> length g \<and> sorted g \<and> ((1::int) \<le> 3 \<longrightarrow> int (length g) \<le> 3))
     (fst (identify_bracketed_sets ((\<lambda>_. [])(0 :=
      [''IMG_3.jpg'', ''IMG_1.jpg'', ''IMG_2.jpg'', ''IMG_5.jpg'', ''IMG_4.jpg''])) 0 3)) \<and>
   fst (identify_bracketed_sets ((\<lambda>_. [])(0 := [''IMG_2.jpg'', ''IMG_1.jpg''])) 0 0) =
     [[''IMG_1.jpg'', ''IMG_2.jpg'']] \<and>
   list_all (\<lambda>g. 2 \<le> length g \<and> sorted g \<and> ((1::int) \<le> 0 \<longrightarrow> int (length g) \<le> 0))
     (fst (identify_bracketed_sets ((\<lambda>_. [])(0 := [''IMG_2.jpg'', ''IMG_1.jpg''])) 0 0))"
proof -
  have "fst (identify_bracketed_sets ((\<lambda>_. [])(0 :=
      [''IMG_3.jpg'', ''IMG_1.jpg'', ''IMG_2.jpg'', ''IMG_5.jpg'', ''IMG_4.jpg''])) 0 3) =
     [[''IMG_1.jpg'', ''IMG_2.jpg'', ''IMG_3.jpg''], [''IMG_4.jpg'', ''IMG_5.jpg'']]"
    by (simp add: identify_bracketed_sets_def list_sort_def Let_def)
  moreover have "list_all (\<lambda>g. 2 \<le> length g \<and> sorted g \<and> ((1::int) \<le> 3 \<longrightarrow> int (length g) \<le> 3))
     (fst (identify_bracketed_sets ((\<lambda>_. [])(0 :=
      [''IMG_3.jpg'', ''IMG_1.jpg'', ''IMG_2.jpg'', ''IMG_5.jpg'', ''IMG_4.jpg''])) 0 3))"
    unfolding list_all_iff by (rule C7_group_bounds)
  moreover have "fst (identify_bracketed_sets ((\<lambda>_. [])(0 := [''IMG_2.jpg'', ''IMG_1.jpg''])) 0 0) =
     [[''IMG_1.jpg'', ''IMG_2.jpg'']]"
    by (simp add: identify_bracketed_sets_def list_sort_def Let_def)
  moreover have "list_all (\<lambda>g. 2 \<le> length g \<and> sorted g \<and> ((1::int) \<le> 0 \<longrightarrow> int (length g) \<le> 0))
     (fst (identify_bracketed_sets ((\<lambda>_. [])(0 := [''IMG_2.jpg'', ''IMG_1.jpg''])) 0 0))"
    unfolding list_all_iff by (rule C7_group_bounds)
  ultimately show ?thesis by (intro conjI)
qed

subsection \<open>The groups as slices of the sorted input\<close>

lemma slice_of_prefix:
  assumes "concat r = take m s" and "k < length r"
  shows "r ! k = take (length (r ! k)) (drop (length (concat (take k r))) s)"
proof -
  let ?a = "concat (take k r)"
  have "r = take k r @ r ! k # drop (Suc k) r"
    using assms(2) by (rule id_take_nth_drop)
  then have "concat r = ?a @ r ! k @ concat (drop (Suc k) r)"
    by (metis concat.simps(2) concat_append)
  with assms(1) have eq: "take m s = ?a @ r ! k @ concat (drop (Suc k) r)" by simp
  then have "drop (length ?a) (take m s) = r ! k @ concat (drop (Suc k) r)"
    by simp
  then have "take (length (r ! k)) (drop (length ?a) (take m s)) = r ! k"
    by simp
  moreover from eq have "length ?a + length (r ! k) \<le> m"
    by (metis add.assoc le_add1 length_append length_take min.cobounded2 le_trans)
  ultimately show ?thesis
    by (simp add: take_drop min_absorb1 add.commute)
qed

lemma concat_retained:
  assumes "2 \<le> b"
  shows "concat (fst (identify_bracketed_sets h a (int b))) =
         (if length (h a) mod b = 1 then butlast (sort (h a)) else sort (h a))"
proof -
  let ?s = "sort (h a)" and ?n = "length (h a)"
  have n: "?n = ?n div b * b + ?n mod b" by simp
  have c: "concat (fst (identify_bracketed_sets h a (int b))) =
        take (?n div b * b) ?s @ (if 2 \<le> ?n mod b then drop (?n div b * b) ?s else [])"
    by (simp add: identify_bracketed_sets_closed [OF assms] concat_full_chunks)
  consider "?n mod b = 0" | "?n mod b = 1" | "2 \<le> ?n mod b" by linarith
  then show ?thesis
  proof cases
    case 1
    with n have "?n div b * b = ?n" by simp
    with 1 c show ?thesis by simp
  next
    case 2
    with n have "?n div b * b = ?n - 1" by simp
    with 2 c show ?thesis by (simp add: butlast_conv_take)
  next
    case 3
    with c show ?thesis by simp
  qed
qed

text \<open>
  Claim C9 states that the concatenation of the groups is the sorted input, except for a
  possibly discarded final singleton, and that no file is in two groups. With
  \<open>bracket_count = 1\<close> every group is a discarded singleton: two files give no group at
  all. And a path that occurs twice in the input list can occur in two groups.
\<close>

theorem C9_counterexample:
  "sort [''IMG_1.jpg'', ''IMG_2.jpg''] = [''IMG_1.jpg'', ''IMG_2.jpg''] \<and>
   concat (fst (identify_bracketed_sets ((\<lambda>_. [])(0 := [''IMG_1.jpg'', ''IMG_2.jpg''])) 0 1)) = [] \<and>
   butlast [''IMG_1.jpg'', ''IMG_2.jpg''] \<noteq> [] \<and>
   fst (identify_bracketed_sets ((\<lambda>_. [])(0 :=
      [''IMG_1.jpg'', ''IMG_1.jpg'', ''IMG_1.jpg'', ''IMG_1.jpg''])) 0 2) =
     [[''IMG_1.jpg'', ''IMG_1.jpg''], [''IMG_1.jpg'', ''IMG_1.jpg'']]"
  by (simp add: identify_bracketed_sets_def list_sort_def Let_def)

text \<open>
  Claim C9, amended. For \<open>bracket_count \<noteq> 1\<close> the concatenation of the groups is the sorted
  input, without its last file when that file alone forms the final group (\<open>N mod B = 1\<close>
  for \<open>B \<ge> 2\<close>; \<open>N = 1\<close> for \<open>B \<le> 0\<close>); each group is the slice of the sorted input
  that starts where the previous group ended; and when the input paths are distinct no
  file is in two groups.
\<close>

theorem C9_consecutive_slices:
  assumes "bracket_count \<noteq> 1"
  shows
    "(let s = sort (h image_files);
          r = fst (identify_bracketed_sets h image_files bracket_count)
      in concat r =
           (if (2 \<le> bracket_count \<and> int (length s) mod bracket_count = 1) \<or>
               (bracket_count \<le> 0 \<and> length s = 1)
            then butlast s else s) \<and>
         (\<forall>k<length r. r ! k = take (length (r ! k)) (drop (length (concat (take k r))) s)) \<and>
         (distinct (h image_files) \<longrightarrow> distinct (concat r)))"
proof -
  let ?s = "sort (h image_files)"
  let ?r = "fst (identify_bracketed_sets h image_files bracket_count)"
  have c: "concat ?r =
           (if (2 \<le> bracket_count \<and> int (length ?s) mod bracket_count = 1) \<or>
               (bracket_count \<le> 0 \<and> length ?s = 1)
            then butlast ?s else ?s)"
  proof (cases "bracket_count \<le> 0")
    case True
    have one: "butlast ?s = []" if "length (h image_files) = 1"
    proof -
      from that have "length ?s = 1" by simp
      then show ?thesis by (cases ?s) simp_all
    qed
    consider "length (h image_files) = 0" | "length (h image_files) = 1"
      | "2 \<le> length (h image_files)"
      by linarith
    then show ?thesis
      using True one by cases (simp_all add: identify_bracketed_sets_nonpos)
  next
    case False
    define b where "b = nat bracket_count"
    with False assms have b: "2 \<le> b" and B: "bracket_count = int b" by simp_all
    have "(int (length (h image_files)) mod int b = 1) = (length (h image_files) mod b = 1)"
      by (metis of_nat_1 of_nat_eq_iff zmod_int)
    with concat_retained [OF b, of h image_files] b show ?thesis
      unfolding B by simp
  qed
  then have "\<exists>m. concat ?r = take m ?s"
    by (metis butlast_conv_take take_all order_refl)
  then obtain m where m: "concat ?r = take m ?s" ..
  have slices: "\<forall>k<length ?r. ?r ! k = take (length (?r ! k)) (drop (length (concat (take k ?r))) ?s)"
    using slice_of_prefix [OF m] by blast
  have "distinct (concat ?r)" if "distinct (h image_files)"
    using that unfolding m by simp
  with c slices show ?thesis by (simp add: Let_def)
qed

theorem C9_consecutive_slices_witness:
  "concat (fst (identify_bracketed_sets ((\<lambda>_. [])(0 :=
      [''IMG_3.jpg'', ''IMG_1.jpg'', ''IMG_2.jpg'', ''IMG_4.jpg''])) 0 3)) =
     [''IMG_1.jpg'', ''IMG_2.jpg'', ''IMG_3.jpg''] \<and>
   distinct (concat (fst (identify_bracketed_sets ((\<lambda>_. [])(0 :=
      [''IMG_3.jpg'', ''IMG_1.jpg'', ''IMG_2.jpg'', ''IMG_4.jpg''])) 0 3)))"
proof -
  have h: "(3::int) \<noteq> 1" by simp
  show ?thesis
    using C9_consecutive_slices [OF h, of "(\<lambda>_. [])(0 :=
      [''IMG_3.jpg'', ''IMG_1.jpg'', ''IMG_2.jpg'', ''IMG_4.jpg''])" 0]
    by (simp add: Let_def)
qed

section \<open>Properties of file discovery\<close>

subsection \<open>Strings, paths and patterns\<close>

lemma lower_char_dot: "lower_char c = CHR ''.'' \<longleftrightarrow> c = CHR ''.''"
  by (auto simp: lower_char_def split: option.splits if_splits)

lemma lower_char_slash: "lower_char c = CHR ''/'' \<longleftrightarrow> c = CHR ''/''"
  by (auto simp: lower_char_def split: option.splits if_splits)

lemma lower_append: "lower (a @ b) = lower a @ lower b"
  by (simp add: lower_def)

lemma suffix_lower: "suffix a b \<Longrightarrow> suffix (lower a) (lower b)"
  by (auto simp: suffix_def lower_append)

lemma dot_in_lower: "CHR ''.'' \<in> set (lower s) \<longleftrightarrow> CHR ''.'' \<in> set s"
  unfolding lower_def set_map image_iff using lower_char_dot by metis

lemma slash_in_lower: "CHR ''/'' \<in> set (lower s) \<longleftrightarrow> CHR ''/'' \<in> set s"
  unfolding lower_def set_map image_iff using lower_char_slash by metis

lemma suffix_os_path_join: "suffix b (os_path_join a b)"
  by (simp add: os_path_join_def suffix_def)

lemma file_extension_of_suffix:
  assumes "suffix (CHR ''.'' # e) (lower p)" and "CHR ''.'' \<notin> set e" and "CHR ''/'' \<notin> set e"
  shows "lower (file_extension p) = e"
proof -
  from assms(1) obtain q where q: "lower p = q @ CHR ''.'' # e"
    by (auto simp: suffix_def)
  then obtain p1 p2 where p: "p = p1 @ p2" and "lower p1 = q" and p2: "lower p2 = CHR ''.'' # e"
    unfolding lower_def by (auto simp: map_eq_append_conv)
  from p2 obtain c e' where "p2 = c # e'" and "lower_char c = CHR ''.''" and e': "lower e' = e"
    unfolding lower_def by (auto simp: map_eq_Cons_conv)
  then have p2': "p2 = CHR ''.'' # e'" by (simp add: lower_char_dot)
  from e' assms(2,3) have nodot: "CHR ''.'' \<notin> set e'" and noslash: "CHR ''/'' \<notin> set e'"
    by (auto simp: dot_in_lower slash_in_lower)
  have "\<And>x. x \<in> set (rev e') \<Longrightarrow> x \<noteq> CHR ''/''"
    using noslash by auto
  then have "takeWhile (\<lambda>c. c \<noteq> CHR ''/'') (rev e' @ CHR ''.'' # rev p1) =
             rev e' @ takeWhile (\<lambda>c. c \<noteq> CHR ''/'') (CHR ''.'' # rev p1)"
    by (rule takeWhile_append2)
  then have base: "os_path_basename p = os_path_basename p1 @ CHR ''.'' # e'"
    unfolding p p2' os_path_basename_def by simp
  have "\<And>x. x \<in> set (rev e') \<Longrightarrow> x \<noteq> CHR ''.''"
    using nodot by auto
  then have "takeWhile (\<lambda>c. c \<noteq> CHR ''.'') (rev e' @ CHR ''.'' # rev (os_path_basename p1)) =
        rev e' @ takeWhile (\<lambda>c. c \<noteq> CHR ''.'') (CHR ''.'' # rev (os_path_basename p1))"
    by (rule takeWhile_append2)
  then have "takeWhile (\<lambda>c. c \<noteq> CHR ''.'') (rev e' @ CHR ''.'' # rev (os_path_basename p1)) = rev e'"
    by simp
  then have "file_extension p = e'"
    unfolding file_extension_def base by (simp add: Let_def)
  with e' show ?thesis by simp
qed


lemma fnmatch_literal:
  "\<not> has_magic pat \<Longrightarrow> fnmatch name pat \<longleftrightarrow> name = pat"
  by (induction name pat rule: fnmatch.induct) (auto simp: has_magic_def)

lemma fnmatch_star:
  assumes "\<not> has_magic ext"
  shows "fnmatch name (CHR ''*'' # ext) \<longleftrightarrow> suffix ext name"
proof (induction name)
  case Nil
  show ?case using fnmatch_literal [OF assms, of "[]"] by (cases ext) auto
next
  case (Cons c cs)
  then show ?case
    using fnmatch_literal [OF assms, of "c # cs"] by (auto simp: suffix_Cons)
qed

lemma join_as_append:
  assumes "CHR ''/'' \<notin> set b" and "b \<noteq> []"
  shows "os_path_join d b = (if d = [] \<or> last d = CHR ''/'' then d else d @ ''/'') @ b"
proof -
  from assms have "hd b \<noteq> CHR ''/''" by (cases b) auto
  with assms(2) show ?thesis by (simp add: os_path_join_def)
qed

lemma basename_append:
  assumes "CHR ''/'' \<notin> set b" and "h = [] \<or> last h = CHR ''/''"
  shows "os_path_basename (h @ b) = b"
proof -
  have "\<And>x. x \<in> set (rev b) \<Longrightarrow> x \<noteq> CHR ''/''" using assms(1) by auto
  then have tw: "takeWhile (\<lambda>c. c \<noteq> CHR ''/'') (rev b @ rev h) =
                 rev b @ takeWhile (\<lambda>c. c \<noteq> CHR ''/'') (rev h)"
    by (rule takeWhile_append2)
  have "takeWhile (\<lambda>c. c \<noteq> CHR ''/'') (rev h) = []"
    using assms(2) by (cases h rule: rev_cases) auto
  with tw show ?thesis by (simp add: os_path_basename_def)
qed

lemma split_append:
  assumes "CHR ''/'' \<notin> set b" and "h = [] \<or> last h = CHR ''/''"
  shows "os_path_split (h @ b) =
         (if h \<noteq> [] \<and> \<not> list_all (\<lambda>c. c = CHR ''/'') h
          then rev (dropWhile (\<lambda>c. c = CHR ''/'') (rev h)) else h, b)"
  unfolding os_path_split_def basename_append [OF assms] by (simp add: Let_def)

lemma split_join:
  assumes "CHR ''/'' \<notin> set b" and "b \<noteq> []"
  shows "os_path_split (os_path_join d b) = (glob_root d, b)"
proof -
  let ?h = "if d = [] \<or> last d = CHR ''/'' then d else d @ ''/''"
  have h: "?h = [] \<or> last ?h = CHR ''/''" by simp
  have star: "CHR ''/'' \<notin> set ''*''" "''*'' \<noteq> []" by simp_all
  have "glob_root d = fst (os_path_split (?h @ ''*''))"
    unfolding glob_root_def join_as_append [OF star] ..
  also have "\<dots> = fst (os_path_split (?h @ b))"
    unfolding split_append [OF star(1) h] split_append [OF assms(1) h] by simp
  finally have "fst (os_path_split (os_path_join d b)) = glob_root d"
    unfolding join_as_append [OF assms] by simp
  moreover have "snd (os_path_split (os_path_join d b)) = b"
    unfolding join_as_append [OF assms] split_append [OF assms(1) h] by simp
  ultimately show ?thesis by (simp add: prod_eq_iff)
qed

lemma glob_root_magic:
  assumes "has_magic (glob_root d)"
  shows "has_magic d"
proof -
  let ?h = "if d = [] \<or> last d = CHR ''/'' then d else d @ ''/''"
  have h: "?h = [] \<or> last ?h = CHR ''/''" by simp
  have star: "CHR ''/'' \<notin> set ''*''" "''*'' \<noteq> []" by simp_all
  have "set (rev (dropWhile P (rev xs))) \<subseteq> set xs" for P and xs :: string
    using set_dropWhileD [of _ P "rev xs"] by auto
  then have "set (glob_root d) \<subseteq> set ?h"
    unfolding glob_root_def join_as_append [OF star] split_append [OF star(1) h]
    by (simp only: fst_conv split: if_splits) auto
  also have "\<dots> \<subseteq> set d \<union> {CHR ''/''}" by auto
  finally show ?thesis
    using assms by (auto simp: has_magic_def list_ex_iff)
qed


lemma join_empty_dir [simp]: "os_path_join [] name = name"
  by (simp add: os_path_join_def)

lemma glob_star_members:
  assumes "\<not> has_magic x" and "CHR ''/'' \<notin> set x"
    and "p \<in> set (glob_glob fs (os_path_join d (CHR ''*'' # x)))"
  obtains dir name where "p = os_path_join dir name" and "suffix x name" and "\<not> ishidden name"
    and "name \<in> set (os_listdir fs (if dir = [] then ''.'' else dir))"
    and "dir = glob_root d \<or> (has_magic (glob_root d) \<and> dir \<in> set (glob_dirs fs (glob_root d)))"
proof -
  have b: "CHR ''/'' \<notin> set (CHR ''*'' # x)" "CHR ''*'' # x \<noteq> []"
    using assms(2) by simp_all
  have g1: "set (glob1 fs dir (CHR ''*'' # x)) =
        {name \<in> set (os_listdir fs (if dir = [] then ''.'' else dir)). \<not> ishidden name \<and> suffix x name}" for dir
    by (auto simp: glob1_def ishidden_def fnmatch_star [OF assms(1)] Let_def)
  have "\<exists>dir name. p = os_path_join dir name \<and> name \<in> set (glob1 fs dir (CHR ''*'' # x)) \<and>
      (dir = glob_root d \<or> (has_magic (glob_root d) \<and> dir \<in> set (glob_dirs fs (glob_root d))))"
  proof (cases "glob_root d = []")
    case True
    with assms(3) have "p \<in> set (glob1 fs [] (CHR ''*'' # x))"
      unfolding glob_glob_def split_join [OF b] by simp
    with True have "p = os_path_join [] p \<and> p \<in> set (glob1 fs [] (CHR ''*'' # x)) \<and> [] = glob_root d"
      by simp
    then show ?thesis by blast
  next
    case False
    with assms(3) show ?thesis
      unfolding glob_glob_def split_join [OF b]
      by (auto simp: Let_def split: if_splits)
  qed
  then show ?thesis using that by (auto simp: g1)
qed

lemma supported_no_magic:
  assumes "ext \<in> set SUPPORTED_IMAGE_FORMATS"
  shows "\<not> has_magic ext" and "\<not> has_magic (upper ext)"
    and "CHR ''/'' \<notin> set ext" and "CHR ''/'' \<notin> set (upper ext)"
    and "lower ext = ext" and "lower (upper ext) = ext"
    and "\<exists>e \<in> set supported_extensions. ext = CHR ''.'' # e \<and> CHR ''.'' \<notin> set e \<and> CHR ''/'' \<notin> set e"
  using assms
  by (auto simp: SUPPORTED_IMAGE_FORMATS_def supported_extensions_def has_magic_def
      upper_def upper_char_def lower_def lower_char_def)

lemma supported_suffix_extension:
  assumes "ext \<in> set SUPPORTED_IMAGE_FORMATS" and "suffix ext (lower p)"
  shows "lower (file_extension p) \<in> set supported_extensions"
proof -
  from supported_no_magic(7) [OF assms(1)] obtain e where e: "e \<in> set supported_extensions"
    and ext: "ext = CHR ''.'' # e" and "CHR ''.'' \<notin> set e" and "CHR ''/'' \<notin> set e"
    by blast
  with assms(2) have "lower (file_extension p) = e"
    by (intro file_extension_of_suffix) simp_all
  with e show ?thesis by simp
qed

subsection \<open>What file discovery returns\<close>

text \<open>
  The result is sorted, and every path in it has a supported extension (compared after
  lower-casing), in both modes. In the non-recursive mode, when the directory name
  contains no wildcard character, every path is a listed entry of the directory joined
  to the directory name.
\<close>

lemma get_image_files_sorted: "sorted (get_image_files fs directory recursive)"
  by (simp add: get_image_files_def)

lemma get_image_files_extension:
  assumes "p \<in> set (get_image_files fs directory recursive)"
  shows "lower (file_extension p) \<in> set supported_extensions"
proof (cases recursive)
  case True
  with assms obtain root f ext where "p = os_path_join root f"
    and ext: "ext \<in> set SUPPORTED_IMAGE_FORMATS" and "suffix ext (lower f)"
    by (auto simp: get_image_files_def list_ex_iff)
  then have "suffix ext (lower p)"
    using suffix_lower [OF suffix_os_path_join, of f root] by (auto intro: suffix_order.trans)
  with ext show ?thesis by (rule supported_suffix_extension)
next
  case False
  with assms obtain ext x where ext: "ext \<in> set SUPPORTED_IMAGE_FORMATS"
    and x: "x = ext \<or> x = upper ext"
    and p: "p \<in> set (glob_glob fs (os_path_join directory (CHR ''*'' # x)))"
    by (auto simp: get_image_files_def)
  from x ext have "\<not> has_magic x" and "CHR ''/'' \<notin> set x" and lx: "lower x = ext"
    using supported_no_magic [OF ext] by auto
  from this(1,2) p obtain dir name where "p = os_path_join dir name" and "suffix x name"
    by (rule glob_star_members)
  then have "suffix x p"
    using suffix_os_path_join [of name dir] by (auto intro: suffix_order.trans)
  then have "suffix ext (lower p)"
    using suffix_lower [of x p] lx by simp
  with ext show ?thesis by (rule supported_suffix_extension)
qed

lemma get_image_files_direct_children:
  assumes "p \<in> set (get_image_files fs directory False)" and "\<not> has_magic directory"
  shows "\<exists>name \<in> set (os_listdir fs (if glob_root directory = [] then ''.'' else glob_root directory)).
           p = os_path_join (glob_root directory) name"
proof -
  from assms(1) obtain ext x where ext: "ext \<in> set SUPPORTED_IMAGE_FORMATS"
    and x: "x = ext \<or> x = upper ext"
    and p: "p \<in> set (glob_glob fs (os_path_join directory (CHR ''*'' # x)))"
    by (auto simp: get_image_files_def)
  from x ext have "\<not> has_magic x" and "CHR ''/'' \<notin> set x"
    using supported_no_magic [OF ext] by auto
  from this p obtain dir name where "p = os_path_join dir name"
    and "name \<in> set (os_listdir fs (if dir = [] then ''.'' else dir))"
    and "dir = glob_root directory \<or>
         (has_magic (glob_root directory) \<and> dir \<in> set (glob_dirs fs (glob_root directory)))"
    by (rule glob_star_members)
  moreover have "\<not> has_magic (glob_root directory)"
    using assms(2) glob_root_magic by blast
  ultimately show ?thesis by auto
qed

text \<open>
  Claim C4 (the part on direct children). The non-recursive branch passes the directory
  name to \<^verbatim>\<open>glob\<close> unescaped, so a directory name that contains \<^verbatim>\<open>*\<close>, \<^verbatim>\<open>?\<close> or \<^verbatim>\<open>[\<close> is
  read as a pattern. With the directories \<^verbatim>\<open>shoot[1]\<close> (holding \<^verbatim>\<open>a.jpg\<close>) and \<^verbatim>\<open>shoot1\<close>
  (holding \<^verbatim>\<open>z.jpg\<close>), the call for \<^verbatim>\<open>shoot[1]\<close> returns \<^verbatim>\<open>shoot1/z.jpg\<close>, a file of the
  other directory, and misses \<^verbatim>\<open>a.jpg\<close>.
\<close>

theorem C4_glob_pattern_in_directory:
  "get_image_files
     \<lparr>os_walk = (\<lambda>d. []),
      os_listdir = (\<lambda>d. if d = ''shoot[1]'' then [''a.jpg''] else
                         if d = ''shoot1'' then [''z.jpg''] else []),
      glob_dirs = (\<lambda>p. if p = ''shoot[1]'' then [''shoot1''] else [])\<rparr>
     ''shoot[1]'' False = [''shoot1/z.jpg'']"
  by (simp add: get_image_files_def SUPPORTED_IMAGE_FORMATS_def glob_glob_def glob1_def
      os_path_split_def os_path_join_def os_path_basename_def upper_def upper_char_def
      ishidden_def has_magic_def)

subsection \<open>Independence of the enumeration order\<close>

lemma sort_cong_mset:
  fixes xs ys :: "'a::linorder list"
  assumes "mset xs = mset ys"
  shows "sort xs = sort ys"
  by (rule properties_for_sort) (simp_all add: assms)

lemma mset_concat_map_cong:
  assumes "mset xs = mset ys" and "\<And>x. mset (f x) = mset (g x)"
  shows "mset (concat (map f xs)) = mset (concat (map g ys))"
proof -
  have "mset (concat (map f xs)) = (\<Sum>x\<in>#mset xs. mset (f x))"
    by (induction xs) simp_all
  moreover have "mset (concat (map g ys)) = (\<Sum>x\<in>#mset ys. mset (g x))"
    by (induction ys) simp_all
  ultimately show ?thesis using assms by simp
qed

lemma mset_glob1:
  assumes "\<And>d. mset (os_listdir fs1 d) = mset (os_listdir fs2 d)"
  shows "mset (glob1 fs1 dir pat) = mset (glob1 fs2 dir pat)"
  by (simp add: glob1_def Let_def assms)

lemma mset_glob_glob:
  assumes "\<And>d. mset (os_listdir fs1 d) = mset (os_listdir fs2 d)"
    and "\<And>d. mset (glob_dirs fs1 d) = mset (glob_dirs fs2 d)"
  shows "mset (glob_glob fs1 pathname) = mset (glob_glob fs2 pathname)"
proof -
  obtain dirname basename where s: "os_path_split pathname = (dirname, basename)"
    by (cases "os_path_split pathname")
  let ?dirs = "\<lambda>fs. if dirname \<noteq> pathname \<and> has_magic dirname
                    then glob_dirs fs dirname else [dirname]"
  have inner: "mset (map (os_path_join d) (glob1 fs1 d basename)) =
               mset (map (os_path_join d) (glob1 fs2 d basename))" for d
    using mset_glob1 [OF assms(1), of d basename] by simp
  have dirs: "mset (?dirs fs1) = mset (?dirs fs2)"
    using assms(2) by simp
  have many: "mset (concat (map (\<lambda>d. map (os_path_join d) (glob1 fs1 d basename)) (?dirs fs1))) =
        mset (concat (map (\<lambda>d. map (os_path_join d) (glob1 fs2 d basename)) (?dirs fs2)))"
    using dirs inner by (rule mset_concat_map_cong)
  show ?thesis
  proof (cases "dirname = []")
    case True
    then show ?thesis
      unfolding glob_glob_def s using mset_glob1 [OF assms(1), of "[]" basename] by simp
  next
    case False
    then show ?thesis
      unfolding glob_glob_def s using many by (simp only: Let_def split_conv if_False)
  qed
qed

lemma recursive_as_walk_files:
  "concat (map (\<lambda>(root, dirs, files). map (os_path_join root) (filter P files)) w) =
   map (\<lambda>(root, f). os_path_join root f)
     (filter (\<lambda>(root, f). P f) (concat (map (\<lambda>(root, dirs, files). map (Pair root) files) w)))"
  by (induction w) (auto simp: filter_map o_def)

text \<open>
  Claim C8. File discovery is deterministic in the directory contents: two runs that see
  the same entries, in whatever order the system enumerates them (the same multiset of
  listed names per directory, of expanded directories per pattern and of walked
  (directory, file) pairs), return the same sequence.
\<close>

theorem C8_determinism:
  assumes "\<forall>d. mset (os_listdir fs1 d) = mset (os_listdir fs2 d)"
    and "\<forall>d. mset (glob_dirs fs1 d) = mset (glob_dirs fs2 d)"
    and "mset (walk_files fs1 directory) = mset (walk_files fs2 directory)"
  shows "get_image_files fs1 directory recursive = get_image_files fs2 directory recursive"
proof (cases recursive)
  case True
  have "mset (map (\<lambda>(root, f). os_path_join root f) (filter P (walk_files fs1 directory))) =
        mset (map (\<lambda>(root, f). os_path_join root f) (filter P (walk_files fs2 directory)))" for P
    using assms(3) by simp
  then have "mset (map (\<lambda>(root, f). os_path_join root f)
          (filter (\<lambda>(root, f). list_ex (\<lambda>ext. suffix ext (lower f)) SUPPORTED_IMAGE_FORMATS)
             (walk_files fs1 directory))) =
        mset (map (\<lambda>(root, f). os_path_join root f)
          (filter (\<lambda>(root, f). list_ex (\<lambda>ext. suffix ext (lower f)) SUPPORTED_IMAGE_FORMATS)
             (walk_files fs2 directory)))" .
  then have "sort (map (\<lambda>(root, f). os_path_join root f)
          (filter (\<lambda>(root, f). list_ex (\<lambda>ext. suffix ext (lower f)) SUPPORTED_IMAGE_FORMATS)
             (walk_files fs1 directory))) =
        sort (map (\<lambda>(root, f). os_path_join root f)
          (filter (\<lambda>(root, f). list_ex (\<lambda>ext. suffix ext (lower f)) SUPPORTED_IMAGE_FORMATS)
             (walk_files fs2 directory)))"
    by (rule sort_cong_mset)
  then show ?thesis
    unfolding get_image_files_def recursive_as_walk_files walk_files_def
    by (simp only: True if_True)
next
  case False
  have g: "mset (glob_glob fs1 p) = mset (glob_glob fs2 p)" for p
    using assms(1,2) by (intro mset_glob_glob) simp_all
  have "mset (concat (map (\<lambda>ext.
             glob_glob fs1 (os_path_join directory (''*'' @ ext)) @
             glob_glob fs1 (os_path_join directory (''*'' @ upper ext)))
             SUPPORTED_IMAGE_FORMATS)) =
        mset (concat (map (\<lambda>ext.
             glob_glob fs2 (os_path_join directory (''*'' @ ext)) @
             glob_glob fs2 (os_path_join directory (''*'' @ upper ext)))
             SUPPORTED_IMAGE_FORMATS))"
    by (rule mset_concat_map_cong) (simp_all add: g)
  then have "sort (concat (map (\<lambda>ext.
             glob_glob fs1 (os_path_join directory (''*'' @ ext)) @
             glob_glob fs1 (os_path_join directory (''*'' @ upper ext)))
             SUPPORTED_IMAGE_FORMATS)) =
        sort (concat (map (\<lambda>ext.
             glob_glob fs2 (os_path_join directory (''*'' @ ext)) @
             glob_glob fs2 (os_path_join directory (''*'' @ upper ext)))
             SUPPORTED_IMAGE_FORMATS))"
    by (rule sort_cong_mset)
  then show ?thesis
    unfolding get_image_files_def by (simp only: False if_False)
qed

theorem C8_determinism_witness:
  "get_image_files
     \<lparr>os_walk = (\<lambda>d. if d = ''shoot'' then [(''shoot'', [], [''b.JPG'', ''a.jpg''])] else []),
      os_listdir = (\<lambda>d. if d = ''shoot'' then [''b.JPG'', ''a.jpg''] else []),
      glob_dirs = (\<lambda>d. [])\<rparr> ''shoot'' False =
   get_image_files
     \<lparr>os_walk = (\<lambda>d. if d = ''shoot'' then [(''shoot'', [], [''a.jpg'', ''b.JPG''])] else []),
      os_listdir = (\<lambda>d. if d = ''shoot'' then [''a.jpg'', ''b.JPG''] else []),
      glob_dirs = (\<lambda>d. [])\<rparr> ''shoot'' False \<and>
   get_image_files
     \<lparr>os_walk = (\<lambda>d. if d = ''shoot'' then [(''shoot'', [], [''b.JPG'', ''a.jpg''])] else []),
      os_listdir = (\<lambda>d. if d = ''shoot'' then [''b.JPG'', ''a.jpg''] else []),
      glob_dirs = (\<lambda>d. [])\<rparr> ''shoot'' True =
   get_image_files
     \<lparr>os_walk = (\<lambda>d. if d = ''shoot'' then [(''shoot'', [], [''a.jpg'', ''b.JPG''])] else []),
      os_listdir = (\<lambda>d. if d = ''shoot'' then [''a.jpg'', ''b.JPG''] else []),
      glob_dirs = (\<lambda>d. [])\<rparr> ''shoot'' True"
proof -
  let ?A = "\<lparr>os_walk = (\<lambda>d. if d = ''shoot'' then [(''shoot'', [], [''b.JPG'', ''a.jpg''])] else []),
      os_listdir = (\<lambda>d. if d = ''shoot'' then [''b.JPG'', ''a.jpg''] else []),
      glob_dirs = (\<lambda>d. [])\<rparr>"
  let ?B = "\<lparr>os_walk = (\<lambda>d. if d = ''shoot'' then [(''shoot'', [], [''a.jpg'', ''b.JPG''])] else []),
      os_listdir = (\<lambda>d. if d = ''shoot'' then [''a.jpg'', ''b.JPG''] else []),
      glob_dirs = (\<lambda>d. [])\<rparr>"
  have 1: "\<forall>d. mset (os_listdir ?A d) = mset (os_listdir ?B d)" by simp
  have 2: "\<forall>d. mset (glob_dirs ?A d) = mset (glob_dirs ?B d)" by simp
  have 3: "mset (walk_files ?A ''shoot'') = mset (walk_files ?B ''shoot'')"
    by (simp add: walk_files_def)
  show ?thesis
    using C8_determinism [OF 1 2 3, of False] C8_determinism [OF 1 2 3, of True]
    by (rule conjI)
qed

section \<open>Properties of batch editing and HDR merging\<close>

subsection \<open>The invocations made by the two loops\<close>

lemma inputFiles_set_inputFiles [simp]: "inputFiles (set_inputFiles params xs) = xs"
  by (cases params) simp_all



lemma files_counted_Cons:
  "files_counted sys out ((params, r, w1) # cs) =
   (if r = Inr True then length (filter (\<lambda>file. os_path_exists sys w1
        (os_path_join out (os_path_basename file))) (inputFiles params)) else 0) +
   files_counted sys out cs"
  by (simp add: files_counted_def)

lemma sets_counted_Cons:
  "sets_counted sys ((params, r, w1) # cs) =
   (if r = Inr True \<and> os_path_exists sys w1 (outputFile params) then 1 else 0) +
   sets_counted sys cs"
  by (simp add: sets_counted_def)

lemma batch_loop_trace:
  "\<exists>new r w'.
     batch_loop sys pp jsx params xs out i (s0, calls, w) = (r, calls @ new, w') \<and>
     invocations_from sys pp jsx 2 w new w' \<and>
     (\<forall>s. r = Inr s \<longrightarrow>
        s = s0 + files_counted sys out new \<and>
        map fst new = map (set_inputFiles params) (chunks batch_size (drop i xs)))"
proof (induction "length xs - i" arbitrary: i s0 calls w rule: less_induct)
  case less
  show ?case
  proof (cases "i < length xs")
    case False
    then have "batch_loop sys pp jsx params xs out i (s0, calls, w) = (Inr s0, calls @ [], w)"
      by (simp add: batch_loop.simps [of _ _ _ _ _ _ i])
    moreover have "invocations_from sys pp jsx 2 w [] w" by simp
    moreover have "s0 = s0 + files_counted sys out []" by (simp add: files_counted_def)
    moreover from False
    have "map fst ([] :: 'a call list) = map (set_inputFiles params) (chunks batch_size (drop i xs))"
      by simp
    ultimately show ?thesis by blast
  next
    case True
    let ?batch = "take batch_size (drop i xs)"
    let ?bp = "set_inputFiles params ?batch"
    obtain r1 w1 where run: "run_photoshop_script sys w pp jsx ?bp = (r1, w1)"
      by (cases "run_photoshop_script sys w pp jsx ?bp")
    show ?thesis
    proof (cases r1)
      case (Inl e)
      have "batch_loop sys pp jsx params xs out i (s0, calls, w) =
            (Inl e, calls @ [(?bp, r1, w1)], w1)"
        using True run Inl by (simp add: batch_loop.simps [of _ _ _ _ _ _ i] Let_def)
      moreover have "invocations_from sys pp jsx 2 w [(?bp, r1, w1)] w1"
        using run Inl by simp
      ultimately show ?thesis by blast
    next
      case (Inr ok)
      define s1 where "s1 = (if ok then s0 + length (filter (\<lambda>file. os_path_exists sys w1
          (os_path_join out (os_path_basename file))) ?batch) else s0)"
      have step: "batch_loop sys pp jsx params xs out i (s0, calls, w) =
            batch_loop sys pp jsx params xs out (i + batch_size)
              (s1, calls @ [(?bp, r1, w1)], time_sleep sys w1 2)"
        using True run Inr by (simp add: batch_loop.simps [of _ _ _ _ _ _ i] Let_def s1_def)
      have "length xs - (i + batch_size) < length xs - i"
        using True by (simp add: batch_size_def)
      from less [OF this, of s1 "calls @ [(?bp, r1, w1)]" "time_sleep sys w1 2"]
      obtain new r w' where
        rec: "batch_loop sys pp jsx params xs out (i + batch_size)
                (s1, calls @ [(?bp, r1, w1)], time_sleep sys w1 2) =
              (r, (calls @ [(?bp, r1, w1)]) @ new, w')"
        and tr: "invocations_from sys pp jsx 2 (time_sleep sys w1 2) new w'"
        and fin: "\<forall>s. r = Inr s \<longrightarrow>
            s = s1 + files_counted sys out new \<and>
            map fst new = map (set_inputFiles params) (chunks batch_size (drop (i + batch_size) xs))"
        by blast
      have ch: "chunks batch_size (drop i xs) =
                ?batch # chunks batch_size (drop (i + batch_size) xs)"
        using True by (simp add: chunks.simps [of 10 "drop i xs"] batch_size_def add.commute)
      have s1: "s1 + n = s0 + files_counted sys out ((?bp, r1, w1) # new)"
        if "n = files_counted sys out new" for n
        using that Inr by (auto simp: s1_def files_counted_Cons)
      have "batch_loop sys pp jsx params xs out i (s0, calls, w) =
            (r, calls @ ((?bp, r1, w1) # new), w')"
        using step rec by simp
      moreover have "invocations_from sys pp jsx 2 w ((?bp, r1, w1) # new) w'"
        using run Inr tr by simp
      moreover have "\<forall>s. r = Inr s \<longrightarrow>
            s = s0 + files_counted sys out ((?bp, r1, w1) # new) \<and>
            map fst ((?bp, r1, w1) # new) = map (set_inputFiles params) (chunks batch_size (drop i xs))"
        using fin s1 ch by simp
      ultimately show ?thesis by blast
    qed
  qed
qed


lemma merge_loop_trace:
  "\<exists>new r w'.
     merge_loop sys pp jsx out rg sets (s0, calls, w) = (r, calls @ new, w') \<and>
     invocations_from sys pp jsx 3 w new w' \<and>
     (\<forall>s. r = Inr s \<longrightarrow>
        s = s0 + sets_counted sys new \<and>
        map fst new = map (\<lambda>bs. HdrMergeParams bs (hdr_output_file out bs) rg True) sets)"
proof (induction sets arbitrary: s0 calls w)
  case Nil
  have "merge_loop sys pp jsx out rg [] (s0, calls, w) = (Inr s0, calls @ [], w)" by simp
  moreover have "invocations_from sys pp jsx 3 w [] w" by simp
  moreover have "\<forall>s. Inr s0 = (Inr s :: exn + nat) \<longrightarrow>
      s = s0 + sets_counted sys [] \<and>
      map fst ([] :: 'a call list) =
        map (\<lambda>bs. HdrMergeParams bs (hdr_output_file out bs) rg True) []"
    by (simp add: sets_counted_def)
  ultimately show ?case by blast
next
  case (Cons bracketed_set rest)
  show ?case
  proof (cases bracketed_set)
    case Nil
    then have "merge_loop sys pp jsx out rg (bracketed_set # rest) (s0, calls, w) =
          (Inl IndexError, calls @ [], w)"
      by simp
    moreover have "invocations_from sys pp jsx 3 w [] w" by simp
    ultimately show ?thesis by blast
  next
    case bs: (Cons first tl)
    define params where
      "params = HdrMergeParams bracketed_set (hdr_output_file out bracketed_set) rg True"
    obtain r1 w1 where run: "run_photoshop_script sys w pp jsx params = (r1, w1)"
      by (cases "run_photoshop_script sys w pp jsx params")
    show ?thesis
    proof (cases r1)
      case (Inl e)
      have "merge_loop sys pp jsx out rg (bracketed_set # rest) (s0, calls, w) =
            (Inl e, calls @ [(params, r1, w1)], w1)"
        using run Inl unfolding params_def hdr_output_file_def by (simp add: bs Let_def)
      moreover have "invocations_from sys pp jsx 3 w [(params, r1, w1)] w1"
        using run Inl by simp
      ultimately show ?thesis by blast
    next
      case (Inr ok)
      define s1 where "s1 = (if ok then
          (if os_path_exists sys w1 (hdr_output_file out bracketed_set) then s0 + 1 else s0)
        else s0)"
      have step: "merge_loop sys pp jsx out rg (bracketed_set # rest) (s0, calls, w) =
            merge_loop sys pp jsx out rg rest (s1, calls @ [(params, r1, w1)], time_sleep sys w1 3)"
        using run Inr unfolding params_def hdr_output_file_def s1_def by (simp add: bs Let_def)
      from Cons.IH [of s1 "calls @ [(params, r1, w1)]" "time_sleep sys w1 3"]
      obtain new r w' where
        rec: "merge_loop sys pp jsx out rg rest (s1, calls @ [(params, r1, w1)], time_sleep sys w1 3) =
              (r, (calls @ [(params, r1, w1)]) @ new, w')"
        and tr: "invocations_from sys pp jsx 3 (time_sleep sys w1 3) new w'"
        and fin: "\<forall>s. r = Inr s \<longrightarrow>
            s = s1 + sets_counted sys new \<and>
            map fst new = map (\<lambda>bs. HdrMergeParams bs (hdr_output_file out bs) rg True) rest"
        by blast
      have s1: "s1 + n = s0 + sets_counted sys ((params, r1, w1) # new)"
        if "n = sets_counted sys new" for n
        using that Inr by (auto simp: s1_def sets_counted_Cons params_def)
      have "merge_loop sys pp jsx out rg (bracketed_set # rest) (s0, calls, w) =
            (r, calls @ ((params, r1, w1) # new), w')"
        using step rec by simp
      moreover have "invocations_from sys pp jsx 3 w ((params, r1, w1) # new) w'"
        using run Inr tr by simp
      moreover have "\<forall>s. r = Inr s \<longrightarrow>
            s = s0 + sets_counted sys ((params, r1, w1) # new) \<and>
            map fst ((params, r1, w1) # new) =
              map (\<lambda>bs. HdrMergeParams bs (hdr_output_file out bs) rg True) (bracketed_set # rest)"
        using fin s1 by (simp add: params_def)
      ultimately show ?thesis by blast
    qed
  qed
qed

lemma batch_edit_photos_returned:
  assumes "batch_edit_photos sys w script_dir photoshop_path input_files output_dir e l c =
             (Inr (success_count, total_count), calls, w')"
  shows "\<exists>w0.
      (if \<not> os_path_exists sys w output_dir then os_makedirs sys w output_dir else (None, w)) =
        (None, w0) \<and>
      invocations_from sys photoshop_path
        (os_path_join (os_path_join script_dir ''photoshop_scripts'') ''batch_edit.jsx'') 2
        w0 calls w' \<and>
      success_count = files_counted sys output_dir calls \<and>
      total_count = length input_files \<and>
      map fst calls =
        map (\<lambda>batch. BatchEditParams batch output_dir e l c ''jpg'' 80)
          (chunks batch_size input_files)"
proof -
  let ?jsx = "os_path_join (os_path_join script_dir ''photoshop_scripts'') ''batch_edit.jsx''"
  let ?params = "BatchEditParams input_files output_dir e l c ''jpg'' 80"
  obtain r0 w0 where
    pre: "(if \<not> os_path_exists sys w output_dir then os_makedirs sys w output_dir else (None, w)) =
            (r0, w0)"
    by (cases "if \<not> os_path_exists sys w output_dir then os_makedirs sys w output_dir else (None, w)")
  from batch_loop_trace [of sys photoshop_path ?jsx ?params input_files output_dir 0 0 "[]" w0]
  obtain new r w1 where
    loop: "batch_loop sys photoshop_path ?jsx ?params input_files output_dir 0 (0, [], w0) =
             (r, new, w1)"
    and tr: "invocations_from sys photoshop_path ?jsx 2 w0 new w1"
    and fin: "\<forall>s. r = Inr s \<longrightarrow>
        s = 0 + files_counted sys output_dir new \<and>
        map fst new = map (set_inputFiles ?params) (chunks batch_size (drop 0 input_files))"
    by auto
  from assms have r0: "r0 = None"
    unfolding batch_edit_photos_def pre by (cases r0) simp_all
  from assms have "r = Inr success_count" and "total_count = length input_files"
    and "calls = new" and "w' = w1"
    unfolding batch_edit_photos_def pre r0 using loop
    by (auto simp: Let_def split: sum.splits)
  with pre r0 tr fin show ?thesis by auto
qed

lemma merge_hdr_photos_returned:
  assumes "merge_hdr_photos sys w script_dir photoshop_path bracketed_sets output_dir remove_ghosts =
             (Inr (success_count, total_count), calls, w')"
  shows "\<exists>w0.
      (if \<not> os_path_exists sys w output_dir then os_makedirs sys w output_dir else (None, w)) =
        (None, w0) \<and>
      invocations_from sys photoshop_path
        (os_path_join (os_path_join script_dir ''photoshop_scripts'') ''hdr_merge.jsx'') 3
        w0 calls w' \<and>
      success_count = sets_counted sys calls \<and>
      total_count = length bracketed_sets \<and>
      map fst calls =
        map (\<lambda>bs. HdrMergeParams bs (hdr_output_file output_dir bs) remove_ghosts True)
          bracketed_sets"
proof -
  let ?jsx = "os_path_join (os_path_join script_dir ''photoshop_scripts'') ''hdr_merge.jsx''"
  obtain r0 w0 where
    pre: "(if \<not> os_path_exists sys w output_dir then os_makedirs sys w output_dir else (None, w)) =
            (r0, w0)"
    by (cases "if \<not> os_path_exists sys w output_dir then os_makedirs sys w output_dir else (None, w)")
  from merge_loop_trace [of sys photoshop_path ?jsx output_dir remove_ghosts bracketed_sets 0 "[]" w0]
  obtain new r w1 where
    loop: "merge_loop sys photoshop_path ?jsx output_dir remove_ghosts bracketed_sets (0, [], w0) =
             (r, new, w1)"
    and tr: "invocations_from sys photoshop_path ?jsx 3 w0 new w1"
    and fin: "\<forall>s. r = Inr s \<longrightarrow>
        s = 0 + sets_counted sys new \<and>
        map fst new =
          map (\<lambda>bs. HdrMergeParams bs (hdr_output_file output_dir bs) remove_ghosts True)
            bracketed_sets"
    by auto
  from assms have r0: "r0 = None"
    unfolding merge_hdr_photos_def pre by (cases r0) simp_all
  from assms have "r = Inr success_count" and "total_count = length bracketed_sets"
    and "calls = new" and "w' = w1"
    unfolding merge_hdr_photos_def pre r0 using loop
    by (auto simp: Let_def split: sum.splits)
  with pre r0 tr fin show ?thesis by auto
qed


subsection \<open>Batch partitioning\<close>




subsection \<open>Success counting\<close>

text \<open>
  Claim C5 states that \<open>success_count\<close> counts exactly the units whose output file exists
  after the invocation. The existence check is made only when the invocation reported
  success: a set whose invocation reports failure is not counted although its output
  file exists (left by an earlier run, say).
\<close>

theorem C5_counterexample:
  "merge_hdr_photos
     \<lparr>run_photoshop_script = (\<lambda>w pp jsx q. (Inr False, w)),
      os_path_exists = (\<lambda>w p. True),
      os_makedirs = (\<lambda>w p. (None, w)),
      time_sleep = (\<lambda>w n. w)\<rparr>
     () ''/opt/app'' ''photoshop'' [[''in/IMG_1.jpg'', ''in/IMG_2.jpg'']] ''out'' True =
   (Inr (0, 1),
    [(HdrMergeParams [''in/IMG_1.jpg'', ''in/IMG_2.jpg''] ''out/IMG_1_HDR.tif'' True True,
      Inr False, ())],
    ()) \<and>
   os_path_exists
     \<lparr>run_photoshop_script = (\<lambda>w pp jsx q. (Inr False, w)),
      os_path_exists = (\<lambda>w p. True),
      os_makedirs = (\<lambda>w p. (None, w)),
      time_sleep = (\<lambda>w n. w)\<rparr> () ''out/IMG_1_HDR.tif''"
  by (simp add: merge_hdr_photos_def os_path_join_def os_path_basename_def os_path_splitext_def
      Let_def)

text \<open>
  Claim C5, amended. When \<^verbatim>\<open>merge_hdr_photos\<close> returns, it has invoked
  \<^verbatim>\<open>run_photoshop_script\<close> once per bracketed set, in order, each time in the world the
  previous invocation left (after the sleep), and \<open>success_count\<close> is the number of sets
  whose invocation returned success and whose expected output file exists in the world
  right after that invocation; a set whose invocation returns success but whose output
  is absent is not counted. When \<^verbatim>\<open>batch_edit_photos\<close> returns, \<open>success_count\<close> is the
  number of files, over the batches whose invocation returned success, whose output file
  exists in the world right after the batch's invocation.
\<close>

theorem C5_success_counting:
  "(merge_hdr_photos sys w script_dir photoshop_path bracketed_sets output_dir remove_ghosts =
      (Inr (success_count, total_count), calls, w') \<longrightarrow>
    (\<exists>w0. (if \<not> os_path_exists sys w output_dir then os_makedirs sys w output_dir
            else (None, w)) = (None, w0) \<and>
          invocations_from sys photoshop_path
            (os_path_join (os_path_join script_dir ''photoshop_scripts'') ''hdr_merge.jsx'') 3
            w0 calls w') \<and>
    map fst calls =
      map (\<lambda>bs. HdrMergeParams bs (hdr_output_file output_dir bs) remove_ghosts True)
        bracketed_sets \<and>
    success_count =
      length (filter (\<lambda>(params, r, w1). r = Inr True \<and> os_path_exists sys w1 (outputFile params))
        calls) \<and>
    total_count = length bracketed_sets) \<and>
   (batch_edit_photos sys w script_dir photoshop_path input_files output_dir e l c =
      (Inr (success_count, total_count), calls, w') \<longrightarrow>
    (\<exists>w0. (if \<not> os_path_exists sys w output_dir then os_makedirs sys w output_dir
            else (None, w)) = (None, w0) \<and>
          invocations_from sys photoshop_path
            (os_path_join (os_path_join script_dir ''photoshop_scripts'') ''batch_edit.jsx'') 2
            w0 calls w') \<and>
    map fst calls =
      map (\<lambda>batch. BatchEditParams batch output_dir e l c ''jpg'' 80)
        (chunks batch_size input_files) \<and>
    success_count =
      sum_list (map (\<lambda>(params, r, w1).
        if r = Inr True
        then length (filter (\<lambda>file. os_path_exists sys w1
                        (os_path_join output_dir (os_path_basename file))) (inputFiles params))
        else 0) calls) \<and>
    total_count = length input_files)"
proof (intro conjI impI)
  assume ret: "merge_hdr_photos sys w script_dir photoshop_path bracketed_sets output_dir
      remove_ghosts = (Inr (success_count, total_count), calls, w')"
  from merge_hdr_photos_returned [OF ret] obtain w0 where
    pre: "(if \<not> os_path_exists sys w output_dir then os_makedirs sys w output_dir
           else (None, w)) = (None, w0)"
    and tr: "invocations_from sys photoshop_path
        (os_path_join (os_path_join script_dir ''photoshop_scripts'') ''hdr_merge.jsx'') 3
        w0 calls w'"
    and cnt: "success_count = sets_counted sys calls"
    and tot: "total_count = length bracketed_sets"
    and ps: "map fst calls =
        map (\<lambda>bs. HdrMergeParams bs (hdr_output_file output_dir bs) remove_ghosts True)
          bracketed_sets"
    by blast
  from pre tr show "\<exists>w0. (if \<not> os_path_exists sys w output_dir then os_makedirs sys w output_dir
            else (None, w)) = (None, w0) \<and>
          invocations_from sys photoshop_path
            (os_path_join (os_path_join script_dir ''photoshop_scripts'') ''hdr_merge.jsx'') 3
            w0 calls w'"
    by blast
  show "map fst calls =
      map (\<lambda>bs. HdrMergeParams bs (hdr_output_file output_dir bs) remove_ghosts True)
        bracketed_sets"
    by (rule ps)
  show "success_count =
      length (filter (\<lambda>(params, r, w1). r = Inr True \<and> os_path_exists sys w1 (outputFile params))
        calls)"
    using cnt by (simp add: sets_counted_def)
  show "total_count = length bracketed_sets" by (rule tot)
next
  assume ret: "batch_edit_photos sys w script_dir photoshop_path input_files output_dir e l c =
      (Inr (success_count, total_count), calls, w')"
  from batch_edit_photos_returned [OF ret] obtain w0 where
    pre: "(if \<not> os_path_exists sys w output_dir then os_makedirs sys w output_dir
           else (None, w)) = (None, w0)"
    and tr: "invocations_from sys photoshop_path
        (os_path_join (os_path_join script_dir ''photoshop_scripts'') ''batch_edit.jsx'') 2
        w0 calls w'"
    and cnt: "success_count = files_counted sys output_dir calls"
    and tot: "total_count = length input_files"
    and ps: "map fst calls =
        map (\<lambda>batch. BatchEditParams batch output_dir e l c ''jpg'' 80)
          (chunks batch_size input_files)"
    by blast
  from pre tr show "\<exists>w0. (if \<not> os_path_exists sys w output_dir then os_makedirs sys w output_dir
            else (None, w)) = (None, w0) \<and>
          invocations_from sys photoshop_path
            (os_path_join (os_path_join script_dir ''photoshop_scripts'') ''batch_edit.jsx'') 2
            w0 calls w'"
    by blast
  show "map fst calls =
      map (\<lambda>batch. BatchEditParams batch output_dir e l c ''jpg'' 80)
        (chunks batch_size input_files)"
    by (rule ps)
  show "success_count =
      sum_list (map (\<lambda>(params, r, w1).
        if r = Inr True
        then length (filter (\<lambda>file. os_path_exists sys w1
                        (os_path_join output_dir (os_path_basename file))) (inputFiles params))
        else 0) calls)"
    using cnt by (simp add: files_counted_def)
  show "total_count = length input_files" by (rule tot)
qed

theorem C5_success_counting_witness:
  "merge_hdr_photos
     \<lparr>run_photoshop_script = (\<lambda>w pp jsx q.
         (Inr True, (if hd (inputFiles q) = ''in/IMG_3.jpg'' then [] else [outputFile q]) @ w)),
      os_path_exists = (\<lambda>w p. p = ''out'' \<or> p \<in> set w),
      os_makedirs = (\<lambda>w p. (None, w)),
      time_sleep = (\<lambda>w n. w)\<rparr>
     [] ''/opt/app'' ''photoshop''
     [[''in/IMG_1.jpg'', ''in/IMG_2.jpg''], [''in/IMG_3.jpg'', ''in/IMG_4.jpg'']] ''out'' True =
   (Inr (1, 2),
    [(HdrMergeParams [''in/IMG_1.jpg'', ''in/IMG_2.jpg''] ''out/IMG_1_HDR.tif'' True True,
      Inr True, [''out/IMG_1_HDR.tif'']),
     (HdrMergeParams [''in/IMG_3.jpg'', ''in/IMG_4.jpg''] ''out/IMG_3_HDR.tif'' True True,
      Inr True, [''out/IMG_1_HDR.tif''])],
    [''out/IMG_1_HDR.tif'']) \<and>
   invocations_from
     \<lparr>run_photoshop_script = (\<lambda>w pp jsx q.
         (Inr True, (if hd (inputFiles q) = ''in/IMG_3.jpg'' then [] else [outputFile q]) @ w)),
      os_path_exists = (\<lambda>w p. p = ''out'' \<or> p \<in> set w),
      os_makedirs = (\<lambda>w p. (None, w)),
      time_sleep = (\<lambda>w n. w)\<rparr>
     ''photoshop'' ''/opt/app/photoshop_scripts/hdr_merge.jsx'' 3 []
     [(HdrMergeParams [''in/IMG_1.jpg'', ''in/IMG_2.jpg''] ''out/IMG_1_HDR.tif'' True True,
       Inr True, [''out/IMG_1_HDR.tif'']),
      (HdrMergeParams [''in/IMG_3.jpg'', ''in/IMG_4.jpg''] ''out/IMG_3_HDR.tif'' True True,
       Inr True, [''out/IMG_1_HDR.tif''])]
     [''out/IMG_1_HDR.tif''] \<and>
   (1::nat) =
     length (filter (\<lambda>(params, r, w1). r = Inr True \<and> (outputFile params = ''out'' \<or> outputFile params \<in> set w1))
       ([(HdrMergeParams [''in/IMG_1.jpg'', ''in/IMG_2.jpg''] ''out/IMG_1_HDR.tif'' True True,
          Inr True, [''out/IMG_1_HDR.tif'']),
         (HdrMergeParams [''in/IMG_3.jpg'', ''in/IMG_4.jpg''] ''out/IMG_3_HDR.tif'' True True,
          Inr True, [''out/IMG_1_HDR.tif''])] :: path list call list))"
proof -
  let ?sys = "\<lparr>run_photoshop_script = (\<lambda>w pp jsx q.
         (Inr True, (if hd (inputFiles q) = ''in/IMG_3.jpg'' then [] else [outputFile q]) @ w)),
      os_path_exists = (\<lambda>w p. p = ''out'' \<or> p \<in> set w),
      os_makedirs = (\<lambda>w p. (None, w)),
      time_sleep = (\<lambda>w n. w)\<rparr> :: path list system"
  let ?calls = "[(HdrMergeParams [''in/IMG_1.jpg'', ''in/IMG_2.jpg''] ''out/IMG_1_HDR.tif'' True True,
      Inr True, [''out/IMG_1_HDR.tif'']),
     (HdrMergeParams [''in/IMG_3.jpg'', ''in/IMG_4.jpg''] ''out/IMG_3_HDR.tif'' True True,
      Inr True, [''out/IMG_1_HDR.tif''])] :: path list call list"
  have ret: "merge_hdr_photos ?sys [] ''/opt/app'' ''photoshop''
     [[''in/IMG_1.jpg'', ''in/IMG_2.jpg''], [''in/IMG_3.jpg'', ''in/IMG_4.jpg'']] ''out'' True =
     (Inr (1, 2), ?calls, [''out/IMG_1_HDR.tif''])"
    by (simp add: merge_hdr_photos_def os_path_join_def os_path_basename_def os_path_splitext_def
        Let_def)
  have jsx: "os_path_join (os_path_join ''/opt/app'' ''photoshop_scripts'') ''hdr_merge.jsx'' =
      ''/opt/app/photoshop_scripts/hdr_merge.jsx''"
    by (simp add: os_path_join_def)
  note merge_half = C5_success_counting [of ?sys "[]" "''/opt/app''" "''photoshop''"
      "[[''in/IMG_1.jpg'', ''in/IMG_2.jpg''], [''in/IMG_3.jpg'', ''in/IMG_4.jpg'']]" "''out''" True
      1 2 ?calls "[''out/IMG_1_HDR.tif'']", THEN conjunct1, THEN mp, OF ret]
  from merge_half have "\<exists>w0. (if \<not> os_path_exists ?sys [] ''out'' then os_makedirs ?sys [] ''out''
            else (None, [])) = (None, w0) \<and>
          invocations_from ?sys ''photoshop''
            (os_path_join (os_path_join ''/opt/app'' ''photoshop_scripts'') ''hdr_merge.jsx'') 3
            w0 ?calls [''out/IMG_1_HDR.tif'']"
    by (rule conjunct1)
  then have tr: "invocations_from ?sys ''photoshop'' ''/opt/app/photoshop_scripts/hdr_merge.jsx'' 3 []
      ?calls [''out/IMG_1_HDR.tif'']"
    unfolding jsx by auto
  from merge_half have cnt: "(1::nat) = length (filter (\<lambda>(params, r, w1). r = Inr True \<and>
        os_path_exists ?sys w1 (outputFile params)) ?calls)"
    by (elim conjE)
  from cnt have cnt': "(1::nat) =
     length (filter (\<lambda>(params, r, w1). r = Inr True \<and> (outputFile params = ''out'' \<or> outputFile params \<in> set w1))
       ?calls)"
    by simp
  show ?thesis
    by (rule conjI, rule ret, rule conjI, rule tr, rule cnt')
qed

end
